theory Spec2Isabelle
  imports Main
begin

section \<open>The backend connection pool of kingshard (backend/db.go)\<close>

text \<open>
  The pool \<open>DB\<close> keeps two buffered Go channels of \<open>*Conn\<close>: \<open>cacheConns\<close> (connected,
  idle sessions) and \<open>idleConns\<close> (Conn objects that are not connected and stand for
  unused capacity). The model is sequential: every method of the pool runs from its
  first to its last statement with no other goroutine in between. A method either
  returns, or parks its goroutine on a channel operation that cannot proceed in the
  state at hand, or panics on a nil receiver.
\<close>

subsection \<open>Sessions\<close>

text \<open>A \<open>*Conn\<close> is an address or nil (\<open>None\<close>).\<close>

type_synonym ptr = "nat option"

text \<open>
  Modelled from the spec: the type \<open>Conn\<close> and its methods (Connect, Close, Ping,
  IsInTransaction, Rollback, IsAutoCommit, exec, GetCharset, SetCharset) and the field
  \<open>pkgErr\<close> are declared outside backend/db.go. A session has a transaction status, an
  autocommit flag, a charset and the marker of a protocol error; \<open>connected\<close> tells
  whether it holds a live connection.
\<close>

record Conn =
  connected :: bool
  in_transaction :: bool
  auto_commit :: bool
  charset :: string
  pkgErr :: bool

text \<open>Every method call on a session is recorded, with the receiver's address.\<close>

datatype call =
    CConnect string string string string
  | CClose
  | CPing
  | CIsInTransaction
  | CRollback
  | CIsAutoCommit
  | CExec string
  | CGetCharset
  | CSetCharset string

datatype error = ErrDatabaseClose | ErrDBPoolInit | ErrConnIsNil | BackendError call

subsection \<open>Channels and the pool\<close>

text \<open>
  A buffered channel \<open>chan *Conn\<close>: its queue and its capacity. A nil channel is
  \<open>None\<close>. \<open>DB.Close\<close> closes the two channels only after it has removed them from the
  pool, so no field of the pool ever refers to a closed channel and the closed flag
  is not part of the model.
\<close>

record chan =
  buf :: "ptr list"
  cap :: nat

record DB =
  addr :: string
  user :: string
  password :: string
  db :: string
  state :: int
  maxConnNum :: int
  InitConnNum :: int
  idleConns :: "chan option"
  cacheConns :: "chan option"
  checkConn :: ptr

text \<open>
  The world: the pool, the store of Conn objects (\<open>nextp\<close> is the next address that
  \<open>new(Conn)\<close> hands out), the calls made on sessions so far, and the backend: the
  \<open>k\<close>-th call succeeds iff \<open>backend k\<close>, for the calls that go to the backend.
\<close>

record world =
  pool :: DB
  heap :: "nat \<Rightarrow> Conn"
  nextp :: nat
  calls :: "(nat \<times> call) list"
  backend :: "nat \<Rightarrow> bool"

datatype 'a result = Returns 'a | Parks | Panics

text \<open>Statements in sequence: what follows a call runs only when the call returns.\<close>

definition seq :: "'a result \<times> world \<Rightarrow> ('a \<Rightarrow> world \<Rightarrow> 'b result \<times> world) \<Rightarrow> 'b result \<times> world" where
  "seq m f = (case m of (Returns a, w) \<Rightarrow> f a w | (Parks, w) \<Rightarrow> (Parks, w) | (Panics, w) \<Rightarrow> (Panics, w))"

definition Up :: int where "Up = 0"
definition Down :: int where "Down = 1"
definition Unknown :: int where "Unknown = 2"
definition InitConnCount :: int where "InitConnCount = 16"
definition DefaultMaxConnNum :: int where "DefaultMaxConnNum = 1024"

text \<open>
  Modelled from the spec: \<open>mysql.DEFAULT_CHARSET\<close> is declared in another package; the
  comment in \<open>tryReuse\<close> names it (\<open>we must use default utf8\<close>).
\<close>

definition DEFAULT_CHARSET :: string where "DEFAULT_CHARSET = ''utf8''"

subsection \<open>The methods of a session\<close>

text \<open>
  Modelled from the spec: the bookkeeping shared by the methods below. A call is added
  to the record; a call that goes to the backend also reads whether the backend accepts
  it; \<open>set_conn\<close> changes the Conn object at an address.
\<close>

definition record_call :: "nat \<Rightarrow> call \<Rightarrow> world \<Rightarrow> world" where
  "record_call p c w = w\<lparr>calls := calls w @ [(p, c)]\<rparr>"

definition round_trip :: "nat \<Rightarrow> call \<Rightarrow> world \<Rightarrow> bool \<times> world" where
  "round_trip p c w = (backend w (length (calls w)), record_call p c w)"

definition set_conn :: "nat \<Rightarrow> (Conn \<Rightarrow> Conn) \<Rightarrow> world \<Rightarrow> world" where
  "set_conn p f w = w\<lparr>heap := (heap w)(p := f (heap w p))\<rparr>"

text \<open>
  Modelled from the spec: \<open>connect(address, user, password, schema) -> error\<close>; a freshly
  connected session starts clean (autocommit enabled, default charset).
\<close>

definition Conn_Connect :: "nat \<Rightarrow> string \<Rightarrow> string \<Rightarrow> string \<Rightarrow> string \<Rightarrow> world \<Rightarrow> error option \<times> world" where
  "Conn_Connect p a u pw d w =
     (case round_trip p (CConnect a u pw d) w of
        (True, w1) \<Rightarrow>
          (None, set_conn p (\<lambda>_. \<lparr>connected = True, in_transaction = False, auto_commit = True,
                                  charset = DEFAULT_CHARSET, pkgErr = False\<rparr>) w1)
      | (False, w1) \<Rightarrow> (Some (BackendError (CConnect a u pw d)), w1))"

text \<open>Modelled from the spec: \<open>close()\<close>.\<close>

definition Conn_Close :: "nat \<Rightarrow> world \<Rightarrow> world" where
  "Conn_Close p w = set_conn p (\<lambda>c. c\<lparr>connected := False\<rparr>) (record_call p CClose w)"

text \<open>Modelled from the spec: \<open>ping() -> error\<close>.\<close>

definition Conn_Ping :: "nat \<Rightarrow> world \<Rightarrow> error option \<times> world" where
  "Conn_Ping p w =
     (case round_trip p CPing w of
        (True, w1) \<Rightarrow> (None, w1)
      | (False, w1) \<Rightarrow> (Some (BackendError CPing), w1))"

text \<open>Modelled from the spec: \<open>isInTransaction() -> bool\<close>, \<open>rollback() -> error\<close>.\<close>

definition Conn_IsInTransaction :: "nat \<Rightarrow> world \<Rightarrow> bool \<times> world" where
  "Conn_IsInTransaction p w = (in_transaction (heap w p), record_call p CIsInTransaction w)"

definition Conn_Rollback :: "nat \<Rightarrow> world \<Rightarrow> error option \<times> world" where
  "Conn_Rollback p w =
     (case round_trip p CRollback w of
        (True, w1) \<Rightarrow> (None, set_conn p (\<lambda>c. c\<lparr>in_transaction := False\<rparr>) w1)
      | (False, w1) \<Rightarrow> (Some (BackendError CRollback), w1))"

text \<open>
  Modelled from the spec: \<open>isAutoCommit() -> bool\<close>, \<open>setAutocommit(true) -> error\<close>; the
  source reaches the latter through \<open>exec("set autocommit = 1")\<close>.
\<close>

definition Conn_IsAutoCommit :: "nat \<Rightarrow> world \<Rightarrow> bool \<times> world" where
  "Conn_IsAutoCommit p w = (auto_commit (heap w p), record_call p CIsAutoCommit w)"

definition Conn_exec :: "nat \<Rightarrow> string \<Rightarrow> world \<Rightarrow> error option \<times> world" where
  "Conn_exec p q w =
     (case round_trip p (CExec q) w of
        (True, w1) \<Rightarrow>
          (None, if q = ''set autocommit = 1''
                 then set_conn p (\<lambda>c. c\<lparr>auto_commit := True\<rparr>) w1 else w1)
      | (False, w1) \<Rightarrow> (Some (BackendError (CExec q)), w1))"

text \<open>Modelled from the spec: \<open>getCharset() -> string\<close>, \<open>setCharset(name) -> error\<close>.\<close>

definition Conn_GetCharset :: "nat \<Rightarrow> world \<Rightarrow> string \<times> world" where
  "Conn_GetCharset p w = (charset (heap w p), record_call p CGetCharset w)"

definition Conn_SetCharset :: "nat \<Rightarrow> string \<Rightarrow> world \<Rightarrow> error option \<times> world" where
  "Conn_SetCharset p n w =
     (case round_trip p (CSetCharset n) w of
        (True, w1) \<Rightarrow> (None, set_conn p (\<lambda>c. c\<lparr>charset := n\<rparr>) w1)
      | (False, w1) \<Rightarrow> (Some (BackendError (CSetCharset n)), w1))"

text \<open>\<open>new(Conn)\<close>: a zeroed object at a fresh address.\<close>

definition zero_Conn :: Conn where
  "zero_Conn = \<lparr>connected = False, in_transaction = False, auto_commit = False,
                charset = [], pkgErr = False\<rparr>"

definition new_Conn :: "world \<Rightarrow> nat \<times> world" where
  "new_Conn w = (nextp w, w\<lparr>heap := (heap w)(nextp w := zero_Conn), nextp := Suc (nextp w)\<rparr>)"

subsection \<open>Channel operations\<close>

text \<open>
  A blocking send \<open>ch <- v\<close>: on a nil channel it blocks forever, on a full one until a
  receiver takes an element; the goroutine parks in both cases.
\<close>

definition send :: "chan option \<Rightarrow> ptr \<Rightarrow> chan result" where
  "send ch v =
     (case ch of
        None \<Rightarrow> Parks
      | Some c \<Rightarrow> if length (buf c) < cap c then Returns (c\<lparr>buf := buf c @ [v]\<rparr>) else Parks)"

definition chan_len :: "chan option \<Rightarrow> nat" where
  "chan_len ch = (case ch of None \<Rightarrow> 0 | Some c \<Rightarrow> length (buf c))"

subsection \<open>The methods of the pool\<close>

definition getConns :: "world \<Rightarrow> chan option \<times> chan option" where
  "getConns w = (cacheConns (pool w), idleConns (pool w))"

definition getCacheConns :: "world \<Rightarrow> chan option" where
  "getCacheConns w = cacheConns (pool w)"

definition getIdleConns :: "world \<Rightarrow> chan option" where
  "getIdleConns w = idleConns (pool w)"

definition Addr :: "world \<Rightarrow> string" where
  "Addr w = addr (pool w)"

definition State :: "world \<Rightarrow> string" where
  "State w =
     (if state (pool w) = Up then ''up''
      else if state (pool w) = Down then ''down''
      else if state (pool w) = Unknown then ''unknow''
      else [])"

definition IdleConnCount :: "world \<Rightarrow> nat" where
  "IdleConnCount w = chan_len (cacheConns (pool w))"

definition newConn :: "world \<Rightarrow> (error + ptr) \<times> world" where
  "newConn w =
     (case new_Conn w of
        (co, w1) \<Rightarrow>
          (case Conn_Connect co (addr (pool w1)) (user (pool w1)) (password (pool w1)) (db (pool w1)) w1 of
             (Some e, w2) \<Rightarrow> (Inl e, w2)
           | (None, w2) \<Rightarrow> (Inr (Some co), w2)))"

definition closeConn :: "ptr \<Rightarrow> world \<Rightarrow> error option result \<times> world" where
  "closeConn co w =
     (case co of
        None \<Rightarrow> (Returns None, w)
      | Some p \<Rightarrow>
          (let w1 = Conn_Close p w in
           case send (getIdleConns w1) co of
             Returns c \<Rightarrow> (Returns None, w1\<lparr>pool := (pool w1)\<lparr>idleConns := Some c\<rparr>\<rparr>)
           | Parks \<Rightarrow> (Parks, w1)
           | Panics \<Rightarrow> (Panics, w1)))"

definition tryReuse :: "ptr \<Rightarrow> world \<Rightarrow> error option result \<times> world" where
  "tryReuse co w =
     (case co of
        None \<Rightarrow> (Panics, w)
      | Some p \<Rightarrow>
          (case Conn_IsInTransaction p w of
             (t, w1) \<Rightarrow>
               (case (if t then Conn_Rollback p w1 else (None, w1)) of
                  (Some e, w2) \<Rightarrow> (Returns (Some e), w2)
                | (None, w2) \<Rightarrow>
                    (case Conn_IsAutoCommit p w2 of
                       (a, w3) \<Rightarrow>
                         (case (if \<not> a then Conn_exec p ''set autocommit = 1'' w3 else (None, w3)) of
                            (Some e, w4) \<Rightarrow> (Returns (Some e), w4)
                          | (None, w4) \<Rightarrow>
                              (case Conn_GetCharset p w4 of
                                 (cs, w5) \<Rightarrow>
                                   (case (if cs \<noteq> DEFAULT_CHARSET
                                          then Conn_SetCharset p DEFAULT_CHARSET w5 else (None, w5)) of
                                      (Some e, w6) \<Rightarrow> (Returns (Some e), w6)
                                    | (None, w6) \<Rightarrow> (Returns None, w6))))))))"

text \<open>
  \<open>PopConn\<close> returns \<open>(nil, err)\<close> as \<open>Inl err\<close> and \<open>(co, nil)\<close> as \<open>Inr co\<close>. When
  \<open>len(cacheConns)\<close> is 0 the \<open>select\<close> can only take the receive from \<open>idleConns\<close>; with
  both channels empty it parks.
\<close>

definition PopConn :: "world \<Rightarrow> (error + ptr) result \<times> world" where
  "PopConn w =
     (case getConns w of
        (Some cc, Some ic) \<Rightarrow>
          (if 0 < length (buf cc) then
             (let co = hd (buf cc);
                  w1 = w\<lparr>pool := (pool w)\<lparr>cacheConns := Some (cc\<lparr>buf := tl (buf cc)\<rparr>)\<rparr>\<rparr>
              in if co = None then (Returns (Inl ErrConnIsNil), w1)
                 else seq (tryReuse co w1) (\<lambda>err w2.
                   case err of
                     Some e \<Rightarrow> seq (closeConn co w2) (\<lambda>_ w3. (Returns (Inl e), w3))
                   | None \<Rightarrow> (Returns (Inr co), w2)))
           else
             (case buf ic of
                [] \<Rightarrow> (Parks, w)
              | co # rest \<Rightarrow>
                  (let w1 = w\<lparr>pool := (pool w)\<lparr>idleConns := Some (ic\<lparr>buf := rest\<rparr>)\<rparr>\<rparr>
                   in case co of
                        None \<Rightarrow> (Panics, w1)
                      | Some p \<Rightarrow>
                          (case Conn_Connect p (addr (pool w1)) (user (pool w1)) (password (pool w1))
                                  (db (pool w1)) w1 of
                             (Some e, w2) \<Rightarrow> seq (closeConn co w2) (\<lambda>_ w3. (Returns (Inl e), w3))
                           | (None, w2) \<Rightarrow> (Returns (Inr co), w2)))))
      | _ \<Rightarrow> (Returns (Inl ErrDatabaseClose), w))"

definition PushConn :: "ptr \<Rightarrow> error option \<Rightarrow> world \<Rightarrow> unit result \<times> world" where
  "PushConn co err w =
     (case co of
        None \<Rightarrow> (Returns (), w)
      | Some p \<Rightarrow>
          (case getCacheConns w of
             None \<Rightarrow> (Returns (), Conn_Close p w)
           | Some c \<Rightarrow>
               (if err \<noteq> None then seq (closeConn co w) (\<lambda>_ w1. (Returns (), w1))
                else if length (buf c) < cap c
                  then (Returns (), w\<lparr>pool := (pool w)\<lparr>cacheConns := Some (c\<lparr>buf := buf c @ [co]\<rparr>)\<rparr>\<rparr>)
                  else seq (closeConn co w) (\<lambda>_ w1. (Returns (), w1)))))"

text \<open>\<open>for conn := range cacheChannel { db.closeConn(conn) }\<close> on the closed channel.\<close>

fun drain :: "ptr list \<Rightarrow> world \<Rightarrow> unit result \<times> world" where
  "drain [] w = (Returns (), w)"
| "drain (conn # rest) w = seq (closeConn conn w) (\<lambda>_ w1. drain rest w1)"

definition Close :: "world \<Rightarrow> error option result \<times> world" where
  "Close w =
     (let idleChannel = idleConns (pool w);
          cacheChannel = cacheConns (pool w);
          w1 = w\<lparr>pool := (pool w)\<lparr>cacheConns := None, idleConns := None\<rparr>\<rparr>
      in case (cacheChannel, idleChannel) of
           (Some cc, Some ic) \<Rightarrow> seq (drain (buf cc) w1) (\<lambda>_ w2. (Returns None, w2))
         | _ \<Rightarrow> (Returns None, w1))"

definition Ping :: "world \<Rightarrow> error option result \<times> world" where
  "Ping w =
     (case checkConn (pool w) of
        None \<Rightarrow>
          (case newConn w of
             (Inl e, w1) \<Rightarrow> (Returns (Some e), w1\<lparr>pool := (pool w1)\<lparr>checkConn := None\<rparr>\<rparr>)
           | (Inr co, w1) \<Rightarrow>
               (let w2 = w1\<lparr>pool := (pool w1)\<lparr>checkConn := co\<rparr>\<rparr>
                in case co of
                     None \<Rightarrow> (Panics, w2)
                   | Some p \<Rightarrow> (case Conn_Ping p w2 of (e, w3) \<Rightarrow> (Returns e, w3))))
      | Some p \<Rightarrow> (case Conn_Ping p w of (e, w1) \<Rightarrow> (Returns e, w1)))"

subsection \<open>The borrowed handle\<close>

text \<open>
  \<open>BackendConn\<close> embeds the \<open>*Conn\<close>; its \<open>db\<close> is the pool of the world. \<open>Close\<close> never
  assigns to the handle, so the caller holds the same handle after the call.
\<close>

record BackendConn =
  Conn :: ptr

definition BackendConn_Close :: "BackendConn \<Rightarrow> world \<Rightarrow> unit result \<times> world" where
  "BackendConn_Close h w =
     (case Conn h of
        None \<Rightarrow> (Returns (), w)
      | Some p \<Rightarrow>
          (if pkgErr (heap w p) then seq (closeConn (Conn h) w) (\<lambda>_ w1. (Returns (), w1))
           else PushConn (Conn h) None w))"

definition GetConn :: "world \<Rightarrow> (error + BackendConn) result \<times> world" where
  "GetConn w =
     seq (PopConn w) (\<lambda>r w1.
       case r of
         Inl e \<Rightarrow> (Returns (Inl e), w1)
       | Inr c \<Rightarrow> (Returns (Inr \<lparr>Conn = c\<rparr>), w1))"

subsection \<open>Opening a pool\<close>

text \<open>
  The population loop of \<open>Open\<close>, from the value \<open>i\<close> of its counter. When a connect
  fails, \<open>db.Close()\<close> runs before \<open>ErrDBPoolInit\<close> is returned.
\<close>

function Open_loop :: "int \<Rightarrow> world \<Rightarrow> error option result \<times> world" where
  "Open_loop i w =
     (if i < maxConnNum (pool w) then
        (if i < InitConnNum (pool w) then
           (case newConn w of
              (Inl err, w1) \<Rightarrow> seq (Close w1) (\<lambda>_ w2. (Returns (Some ErrDBPoolInit), w2))
            | (Inr conn, w1) \<Rightarrow>
                (case send (cacheConns (pool w1)) conn of
                   Returns c \<Rightarrow> Open_loop (i + 1) (w1\<lparr>pool := (pool w1)\<lparr>cacheConns := Some c\<rparr>\<rparr>)
                 | Parks \<Rightarrow> (Parks, w1)
                 | Panics \<Rightarrow> (Panics, w1)))
         else
           (case new_Conn w of
              (conn, w1) \<Rightarrow>
                (case send (idleConns (pool w1)) (Some conn) of
                   Returns c \<Rightarrow> Open_loop (i + 1) (w1\<lparr>pool := (pool w1)\<lparr>idleConns := Some c\<rparr>\<rparr>)
                 | Parks \<Rightarrow> (Parks, w1)
                 | Panics \<Rightarrow> (Panics, w1))))
      else (Returns None, w))"
  by pat_completeness auto
termination
  by (relation "measure (\<lambda>(i, w). nat (maxConnNum (pool w) - i))")
     (auto simp: newConn_def new_Conn_def Conn_Connect_def round_trip_def record_call_def
        set_conn_def split: prod.splits option.splits bool.splits)

declare Open_loop.simps [simp del]

text \<open>
  \<open>Open\<close> returns \<open>(nil, err)\<close> as \<open>Some err\<close> and \<open>(db, nil)\<close> as \<open>None\<close>, the pool
  \<open>db\<close> being the pool of the world it returns. The pool of the world it starts
  from is not read: \<open>new(DB)\<close> replaces it by a zeroed one.
\<close>

definition Open :: "string \<Rightarrow> string \<Rightarrow> string \<Rightarrow> string \<Rightarrow> int \<Rightarrow> world \<Rightarrow> error option result \<times> world" where
  "Open a u pw dbName n w0 =
     (let w = w0\<lparr>pool :=
                \<lparr>addr = a, user = u, password = pw, db = dbName, state = 0,
                 maxConnNum = (if 0 < n then n else DefaultMaxConnNum),
                 InitConnNum = (if 0 < n then (if n < 16 then n else n div 4) else InitConnCount),
                 idleConns = None, cacheConns = None, checkConn = None\<rparr>\<rparr>
      in case newConn w of
           (Inl err, w1) \<Rightarrow>
             seq (Close (w1\<lparr>pool := (pool w1)\<lparr>checkConn := None\<rparr>\<rparr>))
               (\<lambda>_ w2. (Returns (Some ErrDatabaseClose), w2))
         | (Inr co, w1) \<Rightarrow>
             Open_loop 0
               (w1\<lparr>pool := (pool w1)
                  \<lparr>checkConn := co,
                   idleConns := Some \<lparr>buf = [], cap = nat (maxConnNum (pool w1))\<rparr>,
                   cacheConns := Some \<lparr>buf = [], cap = nat (maxConnNum (pool w1))\<rparr>,
                   state := Unknown\<rparr>\<rparr>))"

subsection \<open>Runs of a pool\<close>

text \<open>
  What callers do with a pool, one operation at a time. \<open>B\<close> lists the sessions handed
  out and not yet released. A caller acquires a session with \<open>GetConn\<close>, uses a session
  (which may leave any transaction status, autocommit flag, charset and error marker
  behind, and adds calls to the record), releases a session through the handle, through
  \<open>PushConn\<close> or through \<open>closeConn\<close>, or probes the backend with \<open>Ping\<close>. The pool takes
  a release of any session, handed out or not: the handle keeps its \<open>*Conn\<close> after
  \<open>Close\<close>, and \<open>PushConn\<close> and \<open>closeConn\<close> take any \<open>*Conn\<close>.
\<close>

datatype event =
    Acquire
  | Release nat
  | Push nat "error option"
  | Discard nat
  | Use nat Conn "(nat \<times> call) list"
  | HealthCheck

fun step :: "event \<Rightarrow> world \<times> nat list \<Rightarrow> world \<times> nat list" where
  "step Acquire (w, B) =
     (case GetConn w of
        (Returns (Inr h), w1) \<Rightarrow> (case Conn h of Some p \<Rightarrow> (w1, p # B) | None \<Rightarrow> (w1, B))
      | (_, w1) \<Rightarrow> (w1, B))"
| "step (Release p) (w, B) = (snd (BackendConn_Close \<lparr>Conn = Some p\<rparr> w), remove1 p B)"
| "step (Push p err) (w, B) = (snd (PushConn (Some p) err w), remove1 p B)"
| "step (Discard p) (w, B) = (snd (closeConn (Some p) w), remove1 p B)"
| "step (Use p c l) (w, B) = (w\<lparr>heap := (heap w)(p := c), calls := calls w @ l\<rparr>, B)"
| "step HealthCheck (w, B) = (snd (Ping w), B)"

fun run :: "event list \<Rightarrow> world \<times> nat list \<Rightarrow> world \<times> nat list" where
  "run [] x = x"
| "run (e # es) x = run es (step e x)"

text \<open>
  The discipline of a caller that releases only what it holds: every release in the
  run is of a session that is handed out and not yet released at that moment.
\<close>

fun held_release :: "event \<Rightarrow> nat list \<Rightarrow> bool" where
  "held_release (Release p) B = (p \<in> set B)"
| "held_release (Push p err) B = (p \<in> set B)"
| "held_release (Discard p) B = (p \<in> set B)"
| "held_release e B = True"

fun releases_held :: "event list \<Rightarrow> world \<times> nat list \<Rightarrow> bool" where
  "releases_held [] x = True"
| "releases_held (e # es) x = (held_release e (snd x) \<and> releases_held es (step e x))"

text \<open>
  The capacity accounting of an open pool of capacity \<open>n\<close>: both channels are attached,
  neither holds a nil, \<open>maxConnNum\<close> is \<open>n\<close>, which is also the capacity of \<open>idleConns\<close>,
  and the sessions in the two channels and in the callers' hands add up to \<open>n\<close>.
\<close>

definition capacity_inv :: "int \<Rightarrow> world \<Rightarrow> nat list \<Rightarrow> bool" where
  "capacity_inv n w B =
     (case (cacheConns (pool w), idleConns (pool w)) of
        (Some cc, Some ic) \<Rightarrow>
          maxConnNum (pool w) = n \<and> cap ic = nat n \<and>
          None \<notin> set (buf cc) \<and> None \<notin> set (buf ic) \<and>
          int (length (buf cc)) + int (length (buf ic)) + int (length B) = n
      | _ \<Rightarrow> False)"

text \<open>
  The population loop of \<open>Open\<close> before iteration \<open>i\<close>, when it started with \<open>lo\<close> as the
  next address and \<open>cs\<close> as the record of calls: iteration \<open>k\<close> has allocated the Conn
  object \<open>lo + k\<close>. The first \<open>min i InitConnNum\<close> objects are in \<open>cacheConns\<close>, in this
  order; each is connected, by one \<open>Connect\<close> with the address and credentials of the
  pool, and these are the only calls made. The objects after them are in \<open>idleConns\<close>,
  in this order, as \<open>new(Conn)\<close> left them. Both channels have the capacity
  \<open>maxConnNum\<close>.
\<close>

definition populated :: "nat \<Rightarrow> (nat \<times> call) list \<Rightarrow> int \<Rightarrow> world \<Rightarrow> bool" where
  "populated lo cs i w =
     (case (cacheConns (pool w), idleConns (pool w)) of
        (Some cc, Some ic) \<Rightarrow>
          0 \<le> i \<and> i \<le> maxConnNum (pool w) \<and>
          0 \<le> InitConnNum (pool w) \<and> InitConnNum (pool w) \<le> maxConnNum (pool w) \<and>
          cap cc = nat (maxConnNum (pool w)) \<and> cap ic = nat (maxConnNum (pool w)) \<and>
          nextp w = lo + nat i \<and>
          buf cc = map Some [lo ..< lo + nat (min i (InitConnNum (pool w)))] \<and>
          buf ic = map Some [lo + nat (min i (InitConnNum (pool w))) ..< lo + nat i] \<and>
          (\<forall>p \<in> set [lo ..< lo + nat (min i (InitConnNum (pool w)))]. connected (heap w p)) \<and>
          (\<forall>p \<in> set [lo + nat (min i (InitConnNum (pool w))) ..< lo + nat i]. heap w p = zero_Conn) \<and>
          calls w =
            cs @ map (\<lambda>p. (p, CConnect (addr (pool w)) (user (pool w)) (password (pool w)) (db (pool w))))
                   [lo ..< lo + nat (min i (InitConnNum (pool w)))]
      | _ \<Rightarrow> False)"

text \<open>
  Worlds to run examples in: no pool yet, an empty store, and a backend that accepts
  every call or refuses every call.
\<close>

definition accepting :: "nat \<Rightarrow> bool" where
  "accepting k = True"

definition refusing :: "nat \<Rightarrow> bool" where
  "refusing k = False"

definition no_pool :: DB where
  "no_pool = \<lparr>addr = [], user = [], password = [], db = [], state = 0, maxConnNum = 0,
     InitConnNum = 0, idleConns = None, cacheConns = None, checkConn = None\<rparr>"

definition boot :: "(nat \<Rightarrow> bool) \<Rightarrow> world" where
  "boot b = \<lparr>pool = no_pool, heap = (\<lambda>_. zero_Conn), nextp = 0, calls = [], backend = b\<rparr>"

text \<open>
  The pool that \<open>Open\<close> builds for \<open>n\<close> connections against the accepting backend.
  Its health-check session is the Conn object 0; the sessions of the pool follow from 1.
\<close>

definition opened :: "int \<Rightarrow> world" where
  "opened n = snd (Open ''127.0.0.1:3306'' ''root'' ''secret'' ''test'' n (boot accepting))"

text \<open>A caller has acquired session 1 and holds the handle.\<close>

definition handle1 :: BackendConn where
  "handle1 = \<lparr>Conn = Some 1\<rparr>"

definition held :: "int \<Rightarrow> world" where
  "held n = snd (GetConn (opened n))"

text \<open>The caller's use of session 1 has ended in a protocol error.\<close>

definition tainted :: world where
  "tainted = set_conn 1 (\<lambda>c. c\<lparr>pkgErr := True\<rparr>) (held 1)"

definition discarded :: world where
  "discarded = snd (BackendConn_Close handle1 tainted)"

text \<open>A pool of one shut down while the caller still holds session 1.\<close>

definition shut :: world where
  "shut = snd (Close (held 1))"

text \<open>The handle of session 1 closed once, and closed a second time.\<close>

definition closed_once :: world where
  "closed_once = snd (BackendConn_Close handle1 (held 3))"

definition closed_twice :: world where
  "closed_twice = snd (BackendConn_Close handle1 closed_once)"

text \<open>A clean session at address 0, in front of a backend that refuses every call.\<close>

definition clean_Conn :: Conn where
  "clean_Conn = \<lparr>connected = True, in_transaction = False, auto_commit = True,
                 charset = ''utf8'', pkgErr = False\<rparr>"

definition lone_clean :: world where
  "lone_clean = set_conn 0 (\<lambda>_. clean_Conn) (boot refusing)"

text \<open>A caller acquires session 1 and closes its handle twice.\<close>

definition double_release :: "event list" where
  "double_release = [Acquire, Release 1, Release 1]"

text \<open>
  A run of a pool of two: session 1 is acquired, fails in use and is released;
  both sessions are acquired; session 1 is pushed back and session 2 is discarded;
  the backend is probed.
\<close>

definition example_run :: "event list" where
  "example_run =
     [Acquire,
      Use 1 \<lparr>connected = True, in_transaction = True, auto_commit = False,
             charset = ''latin1'', pkgErr = True\<rparr> [(1, CExec ''begin'')],
      Release 1, Acquire, Acquire, Push 1 None, Discard 2, HealthCheck]"

section \<open>Properties\<close>

subsection \<open>What the calls on a session leave alone\<close>

lemma pool_record_call [simp]: "pool (record_call p c w) = pool w"
  by (simp add: record_call_def)

lemma pool_set_conn [simp]: "pool (set_conn p f w) = pool w"
  by (simp add: set_conn_def)

lemma pool_Conn_Close [simp]: "pool (Conn_Close p w) = pool w"
  by (simp add: Conn_Close_def)

lemma seq_Returns [simp]: "seq (Returns a, w) f = f a w"
  by (simp add: seq_def)

lemma seq_Parks [simp]: "seq (Parks, w) f = (Parks, w)"
  by (simp add: seq_def)

lemma seq_Panics [simp]: "seq (Panics, w) f = (Panics, w)"
  by (simp add: seq_def)

lemma pool_round_trip: "round_trip p c w = (ok, w') \<Longrightarrow> pool w' = pool w"
  by (auto simp: round_trip_def)

lemma pool_Conn_IsInTransaction: "Conn_IsInTransaction p w = (t, w') \<Longrightarrow> pool w' = pool w"
  by (auto simp: Conn_IsInTransaction_def)

lemma pool_Conn_IsAutoCommit: "Conn_IsAutoCommit p w = (t, w') \<Longrightarrow> pool w' = pool w"
  by (auto simp: Conn_IsAutoCommit_def)

lemma pool_Conn_GetCharset: "Conn_GetCharset p w = (t, w') \<Longrightarrow> pool w' = pool w"
  by (auto simp: Conn_GetCharset_def)

lemma pool_Conn_Rollback: "Conn_Rollback p w = (e, w') \<Longrightarrow> pool w' = pool w"
  by (auto simp: Conn_Rollback_def round_trip_def split: bool.splits)

lemma pool_Conn_exec: "Conn_exec p q w = (e, w') \<Longrightarrow> pool w' = pool w"
  by (auto simp: Conn_exec_def round_trip_def split: bool.splits if_splits)

lemma pool_Conn_SetCharset: "Conn_SetCharset p n w = (e, w') \<Longrightarrow> pool w' = pool w"
  by (auto simp: Conn_SetCharset_def round_trip_def split: bool.splits)

lemma pool_Conn_Connect: "Conn_Connect p a u pw d w = (r, w') \<Longrightarrow> pool w' = pool w"
  by (auto simp: Conn_Connect_def round_trip_def split: bool.splits)

lemma pool_tryReuse:
  assumes "tryReuse (Some p) w = (r, w')"
  shows "pool w' = pool w \<and> (\<exists>e. r = Returns e)"
proof -
  obtain t w1 where a: "Conn_IsInTransaction p w = (t, w1)" by (cases "Conn_IsInTransaction p w")
  obtain e1 w2 where b: "(if t then Conn_Rollback p w1 else (None, w1)) = (e1, w2)"
    by (cases "if t then Conn_Rollback p w1 else (None, w1)")
  obtain c w3 where c: "Conn_IsAutoCommit p w2 = (c, w3)" by (cases "Conn_IsAutoCommit p w2")
  obtain e2 w4 where d: "(if \<not> c then Conn_exec p ''set autocommit = 1'' w3 else (None, w3)) = (e2, w4)"
    by (cases "if \<not> c then Conn_exec p ''set autocommit = 1'' w3 else (None, w3)")
  obtain cs w5 where e: "Conn_GetCharset p w4 = (cs, w5)" by (cases "Conn_GetCharset p w4")
  obtain e3 w6 where f: "(if cs \<noteq> DEFAULT_CHARSET then Conn_SetCharset p DEFAULT_CHARSET w5 else (None, w5)) = (e3, w6)"
    by (cases "if cs \<noteq> DEFAULT_CHARSET then Conn_SetCharset p DEFAULT_CHARSET w5 else (None, w5)")
  have p1: "pool w1 = pool w" using a by (rule pool_Conn_IsInTransaction)
  have p2: "pool w2 = pool w1" using b pool_Conn_Rollback [of p w1 e1 w2] by (auto split: if_splits)
  have p3: "pool w3 = pool w2" using c by (rule pool_Conn_IsAutoCommit)
  have p4: "pool w4 = pool w3" using d pool_Conn_exec [of p _ w3 e2 w4] by (auto split: if_splits)
  have p5: "pool w5 = pool w4" using e by (rule pool_Conn_GetCharset)
  have p6: "pool w6 = pool w5" using f pool_Conn_SetCharset [of p _ w5 e3 w6] by (auto split: if_splits)
  have "tryReuse (Some p) w =
          (case e1 of Some x \<Rightarrow> (Returns (Some x), w2)
           | None \<Rightarrow> (case e2 of Some x \<Rightarrow> (Returns (Some x), w4)
                      | None \<Rightarrow> (Returns e3, w6)))"
    unfolding tryReuse_def by (simp add: a b c d e f split: option.splits)
  with assms p1 p2 p3 p4 p5 p6 show ?thesis
    by (auto split: option.splits)
qed


subsection \<open>The capacity accounting is kept by every step\<close>

lemma capacity_inv_iff:
  "capacity_inv n w B \<longleftrightarrow>
     (\<exists>cc ic. cacheConns (pool w) = Some cc \<and> idleConns (pool w) = Some ic \<and>
        maxConnNum (pool w) = n \<and> cap ic = nat n \<and>
        None \<notin> set (buf cc) \<and> None \<notin> set (buf ic) \<and>
        int (length (buf cc)) + int (length (buf ic)) + int (length B) = n)"
  by (auto simp: capacity_inv_def split: option.splits)

lemma closeConn_room:
  assumes "idleConns (pool w) = Some ic" and "length (buf ic) < cap ic"
  shows "closeConn (Some p) w =
           (Returns None, (Conn_Close p w)\<lparr>pool := (pool w)\<lparr>idleConns := Some (ic\<lparr>buf := buf ic @ [Some p]\<rparr>)\<rparr>\<rparr>)"
  using assms by (simp add: closeConn_def getIdleConns_def send_def)


lemma PopConn_cache:
  assumes "cacheConns (pool w) = Some cc" and "idleConns (pool w) = Some ic"
    and "buf cc = Some p # rest"
  shows "PopConn w =
           seq (tryReuse (Some p) (w\<lparr>pool := (pool w)\<lparr>cacheConns := Some (cc\<lparr>buf := rest\<rparr>)\<rparr>\<rparr>))
             (\<lambda>err w2. case err of
                 Some e \<Rightarrow> seq (closeConn (Some p) w2) (\<lambda>_ w3. (Returns (Inl e), w3))
               | None \<Rightarrow> (Returns (Inr (Some p)), w2))"
  using assms by (simp add: PopConn_def getConns_def Let_def)

lemma PopConn_idle:
  assumes "cacheConns (pool w) = Some cc" and "idleConns (pool w) = Some ic"
    and "buf cc = []" and "buf ic = Some p # rest"
  shows "PopConn w =
           (case Conn_Connect p (addr (pool w)) (user (pool w)) (password (pool w)) (db (pool w))
                   (w\<lparr>pool := (pool w)\<lparr>idleConns := Some (ic\<lparr>buf := rest\<rparr>)\<rparr>\<rparr>) of
              (Some e, w2) \<Rightarrow> seq (closeConn (Some p) w2) (\<lambda>_ w3. (Returns (Inl e), w3))
            | (None, w2) \<Rightarrow> (Returns (Inr (Some p)), w2))"
  using assms by (simp add: PopConn_def getConns_def Let_def)

lemma PopConn_empty:
  assumes "cacheConns (pool w) = Some cc" and "idleConns (pool w) = Some ic"
    and "buf cc = []" and "buf ic = []"
  shows "PopConn w = (Parks, w)"
  using assms by (simp add: PopConn_def getConns_def Let_def)


lemma PopConn_inv:
  assumes "capacity_inv n w B" and "PopConn w = (r, w')"
  shows "case r of Returns (Inr co) \<Rightarrow> (\<exists>p. co = Some p \<and> capacity_inv n w' (p # B))
                 | _ \<Rightarrow> capacity_inv n w' B"
proof -
  from assms(1) obtain cc ic where
    cc: "cacheConns (pool w) = Some cc" and ic: "idleConns (pool w) = Some ic" and
    mx: "maxConnNum (pool w) = n" and capic: "cap ic = nat n" and
    nn: "None \<notin> set (buf cc)" "None \<notin> set (buf ic)" and
    sum: "int (length (buf cc)) + int (length (buf ic)) + int (length B) = n"
    by (auto simp: capacity_inv_iff)
  show ?thesis
  proof (cases "buf cc")
    case (Cons co rest)
    with nn obtain p where co: "co = Some p" and nrest: "None \<notin> set rest" by (cases co) auto
    define w1 where "w1 = w\<lparr>pool := (pool w)\<lparr>cacheConns := Some (cc\<lparr>buf := rest\<rparr>)\<rparr>\<rparr>"
    have pw1: "pool w1 = (pool w)\<lparr>cacheConns := Some (cc\<lparr>buf := rest\<rparr>)\<rparr>" by (simp add: w1_def)
    obtain r0 w2 where tr0: "tryReuse (Some p) w1 = (r0, w2)" by (cases "tryReuse (Some p) w1")
    from pool_tryReuse [OF tr0] obtain e where r0: "r0 = Returns e" and p2: "pool w2 = pool w1"
      by blast
    note tr = tr0 [unfolded r0]
    have "PopConn w = seq (tryReuse (Some p) w1) (\<lambda>err w2. case err of
                 Some x \<Rightarrow> seq (closeConn (Some p) w2) (\<lambda>_ w3. (Returns (Inl x), w3))
               | None \<Rightarrow> (Returns (Inr (Some p)), w2))"
      unfolding w1_def using cc ic Cons [unfolded co] by (rule PopConn_cache)
    then have pop: "PopConn w = (case e of
                 Some x \<Rightarrow> seq (closeConn (Some p) w2) (\<lambda>_ w3. (Returns (Inl x), w3))
               | None \<Rightarrow> (Returns (Inr (Some p)), w2))"
      by (simp add: tr)
    have len: "int (length rest) + 1 + int (length (buf ic)) + int (length B) = n"
      using sum Cons by simp
    show ?thesis
    proof (cases e)
      case None
      with pop assms(2) have "r = Returns (Inr (Some p))" "w' = w2" by auto
      moreover have "capacity_inv n w2 (p # B)"
        unfolding capacity_inv_iff p2 pw1 using ic mx capic nn(2) nrest len by simp
      ultimately show ?thesis by simp
    next
      case (Some x)
      have room: "length (buf ic) < cap ic" using capic len by linarith
      have ic2: "idleConns (pool w2) = Some ic" using ic by (simp add: p2 pw1)
      from pop assms(2) Some closeConn_room [OF ic2 room, of p]
      have "r = Returns (Inl x)"
        "w' = (Conn_Close p w2)\<lparr>pool := (pool w2)\<lparr>idleConns := Some (ic\<lparr>buf := buf ic @ [Some p]\<rparr>)\<rparr>\<rparr>"
        by auto
      moreover have "capacity_inv n ((Conn_Close p w2)\<lparr>pool := (pool w2)\<lparr>idleConns := Some (ic\<lparr>buf := buf ic @ [Some p]\<rparr>)\<rparr>\<rparr>) B"
        unfolding capacity_inv_iff p2 pw1 using mx capic nn(2) nrest len by simp
      ultimately show ?thesis by simp
    qed
  next
    case Nil
    show ?thesis
    proof (cases "buf ic")
      case Nil': Nil
      from PopConn_empty [OF cc ic Nil Nil'] assms(2) have "r = Parks" "w' = w" by auto
      with assms(1) show ?thesis by simp
    next
      case (Cons co rest)
      with nn obtain p where co: "co = Some p" and nrest: "None \<notin> set rest" by (cases co) auto
      define w1 where "w1 = w\<lparr>pool := (pool w)\<lparr>idleConns := Some (ic\<lparr>buf := rest\<rparr>)\<rparr>\<rparr>"
      have pw1: "pool w1 = (pool w)\<lparr>idleConns := Some (ic\<lparr>buf := rest\<rparr>)\<rparr>" by (simp add: w1_def)
      obtain e w2 where
        cn: "Conn_Connect p (addr (pool w)) (user (pool w)) (password (pool w)) (db (pool w)) w1 = (e, w2)"
        by (cases "Conn_Connect p (addr (pool w)) (user (pool w)) (password (pool w)) (db (pool w)) w1")
      then have p2: "pool w2 = pool w1" by (rule pool_Conn_Connect)
      have pop: "PopConn w = (case e of
                 Some x \<Rightarrow> seq (closeConn (Some p) w2) (\<lambda>_ w3. (Returns (Inl x), w3))
               | None \<Rightarrow> (Returns (Inr (Some p)), w2))"
        using PopConn_idle [OF cc ic Nil Cons [unfolded co]] cn [unfolded w1_def]
        by (simp split: option.splits)
      have len: "int (length rest) + 1 + int (length B) = n"
        using sum Cons Nil by simp
      show ?thesis
      proof (cases e)
        case None
        with pop assms(2) have "r = Returns (Inr (Some p))" "w' = w2" by auto
        moreover have "capacity_inv n w2 (p # B)"
          unfolding capacity_inv_iff p2 pw1 using cc mx capic nn(1) nrest len Nil by simp
        ultimately show ?thesis by simp
      next
        case (Some x)
        have ic2: "idleConns (pool w2) = Some (ic\<lparr>buf := rest\<rparr>)" by (simp add: p2 pw1)
        have room: "length (buf (ic\<lparr>buf := rest\<rparr>)) < cap (ic\<lparr>buf := rest\<rparr>)"
          using capic len by simp
        from pop assms(2) Some closeConn_room [OF ic2 room, of p]
        have "r = Returns (Inl x)"
          "w' = (Conn_Close p w2)\<lparr>pool := (pool w2)\<lparr>idleConns := Some (ic\<lparr>buf := rest @ [Some p]\<rparr>)\<rparr>\<rparr>"
          by auto
        moreover have "capacity_inv n ((Conn_Close p w2)\<lparr>pool := (pool w2)\<lparr>idleConns := Some (ic\<lparr>buf := rest @ [Some p]\<rparr>)\<rparr>\<rparr>) B"
          unfolding capacity_inv_iff p2 pw1 using cc mx capic nn(1) nrest len Nil by simp
        ultimately show ?thesis by simp
      qed
    qed
  qed
qed


lemma closeConn_inv:
  assumes "capacity_inv n w B" and "p \<in> set B"
  shows "\<exists>w'. closeConn (Some p) w = (Returns None, w') \<and> capacity_inv n w' (remove1 p B)"
proof -
  from assms(1) obtain cc ic where
    cc: "cacheConns (pool w) = Some cc" and ic: "idleConns (pool w) = Some ic" and
    mx: "maxConnNum (pool w) = n" and capic: "cap ic = nat n" and
    nn: "None \<notin> set (buf cc)" "None \<notin> set (buf ic)" and
    sum: "int (length (buf cc)) + int (length (buf ic)) + int (length B) = n"
    by (auto simp: capacity_inv_iff)
  from assms(2) have B: "0 < length B" by (cases B) auto
  have "length (remove1 p B) = length B - 1"
    using assms(2) by (simp add: length_remove1)
  with B have len: "int (length (remove1 p B)) = int (length B) - 1"
    by linarith
  have room: "length (buf ic) < cap ic" using capic sum B by linarith
  have "capacity_inv n ((Conn_Close p w)\<lparr>pool := (pool w)\<lparr>idleConns := Some (ic\<lparr>buf := buf ic @ [Some p]\<rparr>)\<rparr>\<rparr>)
          (remove1 p B)"
    unfolding capacity_inv_iff using cc mx capic nn sum len by simp
  with closeConn_room [OF ic room, of p] show ?thesis by simp
qed

lemma PushConn_inv:
  assumes "capacity_inv n w B" and "p \<in> set B"
  shows "\<exists>w'. PushConn (Some p) err w = (Returns (), w') \<and> capacity_inv n w' (remove1 p B)"
proof -
  from assms(1) obtain cc ic where
    cc: "cacheConns (pool w) = Some cc" and ic: "idleConns (pool w) = Some ic" and
    mx: "maxConnNum (pool w) = n" and capic: "cap ic = nat n" and
    nn: "None \<notin> set (buf cc)" "None \<notin> set (buf ic)" and
    sum: "int (length (buf cc)) + int (length (buf ic)) + int (length B) = n"
    by (auto simp: capacity_inv_iff)
  from assms(2) have B: "0 < length B" by (cases B) auto
  have "length (remove1 p B) = length B - 1"
    using assms(2) by (simp add: length_remove1)
  with B have len: "int (length (remove1 p B)) = int (length B) - 1"
    by linarith
  from closeConn_inv [OF assms] obtain w1 where
    cl: "closeConn (Some p) w = (Returns None, w1)" and inv1: "capacity_inv n w1 (remove1 p B)"
    by blast
  show ?thesis
  proof (cases "err = None \<and> length (buf cc) < cap cc")
    case True
    then have "PushConn (Some p) err w =
        (Returns (), w\<lparr>pool := (pool w)\<lparr>cacheConns := Some (cc\<lparr>buf := buf cc @ [Some p]\<rparr>)\<rparr>\<rparr>)"
      using cc by (simp add: PushConn_def getCacheConns_def)
    moreover have "capacity_inv n (w\<lparr>pool := (pool w)\<lparr>cacheConns := Some (cc\<lparr>buf := buf cc @ [Some p]\<rparr>)\<rparr>\<rparr>)
        (remove1 p B)"
      unfolding capacity_inv_iff using ic mx capic nn sum len by simp
    ultimately show ?thesis by simp
  next
    case False
    then have "PushConn (Some p) err w = seq (closeConn (Some p) w) (\<lambda>_ w1. (Returns (), w1))"
      using cc by (auto simp: PushConn_def getCacheConns_def)
    with cl inv1 show ?thesis by simp
  qed
qed

lemma BackendConn_Close_inv:
  assumes "capacity_inv n w B" and "p \<in> set B"
  shows "\<exists>w'. BackendConn_Close \<lparr>Conn = Some p\<rparr> w = (Returns (), w') \<and> capacity_inv n w' (remove1 p B)"
proof (cases "pkgErr (heap w p)")
  case True
  from closeConn_inv [OF assms] obtain w1 where
    "closeConn (Some p) w = (Returns None, w1)" and "capacity_inv n w1 (remove1 p B)"
    by blast
  with True show ?thesis by (simp add: BackendConn_Close_def)
next
  case False
  with PushConn_inv [OF assms, of None] show ?thesis by (simp add: BackendConn_Close_def)
qed

lemma pool_new_Conn: "new_Conn w = (p, w') \<Longrightarrow> pool w' = pool w"
  by (auto simp: new_Conn_def)

lemma pool_newConn: "newConn w = (r, w') \<Longrightarrow> pool w' = pool w"
  by (auto simp: newConn_def new_Conn_def split: prod.splits option.splits dest: pool_Conn_Connect)

lemma pool_Conn_Ping: "Conn_Ping p w = (e, w') \<Longrightarrow> pool w' = pool w"
  by (auto simp: Conn_Ping_def round_trip_def split: bool.splits)

lemma capacity_inv_checkConn:
  "capacity_inv n (w\<lparr>pool := (pool w)\<lparr>checkConn := c\<rparr>\<rparr>) B = capacity_inv n w B"
  by (simp add: capacity_inv_iff)

lemma capacity_inv_pool: "pool w' = pool w \<Longrightarrow> capacity_inv n w' B = capacity_inv n w B"
  by (simp add: capacity_inv_iff)

lemma Ping_inv:
  assumes "capacity_inv n w B"
  shows "capacity_inv n (snd (Ping w)) B"
proof (cases "checkConn (pool w)")
  case (Some p)
  obtain e w1 where pg: "Conn_Ping p w = (e, w1)" by (cases "Conn_Ping p w")
  from capacity_inv_pool [OF pool_Conn_Ping [OF pg], of n B] assms have "capacity_inv n w1 B" by simp
  with Some pg show ?thesis by (simp add: Ping_def)
next
  case None
  obtain r w1 where nc: "newConn w = (r, w1)" by (cases "newConn w")
  from capacity_inv_pool [OF pool_newConn [OF nc], of n B] assms have i1: "capacity_inv n w1 B" by simp
  show ?thesis
  proof (cases r)
    case (Inl e)
    with None nc i1 show ?thesis by (simp add: Ping_def capacity_inv_checkConn)
  next
    case (Inr co)
    have i2: "capacity_inv n (w1\<lparr>pool := (pool w1)\<lparr>checkConn := co\<rparr>\<rparr>) B"
      using i1 by (simp add: capacity_inv_checkConn)
    show ?thesis
    proof (cases co)
      case None': None
      with None nc Inr i2 show ?thesis by (simp add: Ping_def)
    next
      case (Some p)
      obtain e w3 where pg: "Conn_Ping p (w1\<lparr>pool := (pool w1)\<lparr>checkConn := Some p\<rparr>\<rparr>) = (e, w3)"
        by (cases "Conn_Ping p (w1\<lparr>pool := (pool w1)\<lparr>checkConn := Some p\<rparr>\<rparr>)")
      from capacity_inv_pool [OF pool_Conn_Ping [OF pg], of n B] i2 Some have "capacity_inv n w3 B"
        by simp
      with None nc Inr Some pg show ?thesis by (simp add: Ping_def)
    qed
  qed
qed

lemma step_Acquire:
  assumes "PopConn w = (r, w1)"
  shows "step Acquire (w, B) =
           (w1, case r of Returns (Inr (Some p)) \<Rightarrow> p # B | _ \<Rightarrow> B)"
proof (cases r)
  case (Returns x)
  with assms show ?thesis
    by (cases x) (simp_all add: GetConn_def split: option.splits)
next
  case Parks
  with assms show ?thesis by (simp add: GetConn_def)
next
  case Panics
  with assms show ?thesis by (simp add: GetConn_def)
qed

lemma step_inv:
  assumes "capacity_inv n w B" and "held_release e B"
  shows "capacity_inv n (fst (step e (w, B))) (snd (step e (w, B)))"
proof (cases e)
  case Acquire
  obtain r w1 where pc: "PopConn w = (r, w1)" by (cases "PopConn w")
  from PopConn_inv [OF assms(1) pc] show ?thesis
    unfolding Acquire step_Acquire [OF pc]
    by (auto split: result.splits sum.splits option.splits)
next
  case (Release p)
  with assms(2) have p: "p \<in> set B" by simp
  from BackendConn_Close_inv [OF assms(1) p] obtain w1 where
    "BackendConn_Close \<lparr>Conn = Some p\<rparr> w = (Returns (), w1)" and "capacity_inv n w1 (remove1 p B)"
    by blast
  with Release show ?thesis by simp
next
  case (Push p err)
  with assms(2) have p: "p \<in> set B" by simp
  from PushConn_inv [OF assms(1) p, of err] obtain w1 where
    "PushConn (Some p) err w = (Returns (), w1)" and "capacity_inv n w1 (remove1 p B)"
    by blast
  with Push show ?thesis by simp
next
  case (Discard p)
  with assms(2) have p: "p \<in> set B" by simp
  from closeConn_inv [OF assms(1) p] obtain w1 where
    "closeConn (Some p) w = (Returns None, w1)" and "capacity_inv n w1 (remove1 p B)"
    by blast
  with Discard show ?thesis by simp
next
  case (Use p c l)
  have "pool (w\<lparr>heap := (heap w)(p := c), calls := calls w @ l\<rparr>) = pool w" by simp
  from capacity_inv_pool [OF this, of n B] assms(1) Use show ?thesis by simp
next
  case HealthCheck
  with Ping_inv [OF assms(1)] show ?thesis by simp
qed

lemma run_inv:
  "capacity_inv n w B \<Longrightarrow> releases_held es (w, B) \<Longrightarrow>
     capacity_inv n (fst (run es (w, B))) (snd (run es (w, B)))"
proof (induction es arbitrary: w B)
  case Nil
  then show ?case by simp
next
  case (Cons e es)
  obtain w1 B1 where st: "step e (w, B) = (w1, B1)" by (cases "step e (w, B)")
  from Cons.prems(2) have h: "held_release e B" and r: "releases_held es (w1, B1)"
    by (simp_all add: st)
  from step_inv [OF Cons.prems(1) h] st have "capacity_inv n w1 B1" by simp
  from Cons.IH [OF this r] show ?case by (simp add: st)
qed

subsection \<open>What a successful Open leaves behind\<close>

lemma populated_iff:
  "populated lo cs i w \<longleftrightarrow>
     (\<exists>cc ic. cacheConns (pool w) = Some cc \<and> idleConns (pool w) = Some ic \<and>
        0 \<le> i \<and> i \<le> maxConnNum (pool w) \<and>
        0 \<le> InitConnNum (pool w) \<and> InitConnNum (pool w) \<le> maxConnNum (pool w) \<and>
        cap cc = nat (maxConnNum (pool w)) \<and> cap ic = nat (maxConnNum (pool w)) \<and>
        nextp w = lo + nat i \<and>
        buf cc = map Some [lo ..< lo + nat (min i (InitConnNum (pool w)))] \<and>
        buf ic = map Some [lo + nat (min i (InitConnNum (pool w))) ..< lo + nat i] \<and>
        (\<forall>p \<in> set [lo ..< lo + nat (min i (InitConnNum (pool w)))]. connected (heap w p)) \<and>
        (\<forall>p \<in> set [lo + nat (min i (InitConnNum (pool w))) ..< lo + nat i]. heap w p = zero_Conn) \<and>
        calls w =
          cs @ map (\<lambda>p. (p, CConnect (addr (pool w)) (user (pool w)) (password (pool w)) (db (pool w))))
                 [lo ..< lo + nat (min i (InitConnNum (pool w)))])"
  by (simp add: populated_def split: option.splits)

lemma new_Conn_facts:
  assumes "new_Conn w = (p, w1)"
  shows "p = nextp w" and "pool w1 = pool w" and "nextp w1 = Suc (nextp w)"
    and "q \<noteq> nextp w \<Longrightarrow> heap w1 q = heap w q"
    and "calls w1 = calls w" and "backend w1 = backend w"
    and "heap w1 (nextp w) = zero_Conn"
  using assms by (auto simp: new_Conn_def)

lemma Conn_Connect_facts:
  assumes "Conn_Connect p a u pw d w = (e, w1)"
  shows "pool w1 = pool w" and "nextp w1 = nextp w"
    and "q \<noteq> p \<Longrightarrow> heap w1 q = heap w q"
    and "e = None \<Longrightarrow> connected (heap w1 p)"
    and "calls w1 = calls w @ [(p, CConnect a u pw d)]" and "backend w1 = backend w"
    and "e = None \<longleftrightarrow> backend w (length (calls w))"
  using assms
  by (auto simp: Conn_Connect_def round_trip_def record_call_def set_conn_def split: bool.splits)

lemma newConn_facts:
  assumes "newConn w = (r, w1)"
  shows "pool w1 = pool w" and "nextp w1 = Suc (nextp w)"
    and "q \<noteq> nextp w \<Longrightarrow> heap w1 q = heap w q"
    and "r = Inr co \<Longrightarrow> co = Some (nextp w) \<and> connected (heap w1 (nextp w))"
    and "calls w1 = calls w @ [(nextp w, CConnect (addr (pool w)) (user (pool w)) (password (pool w)) (db (pool w)))]"
    and "backend w1 = backend w"
    and "(\<exists>co. r = Inr co) \<longleftrightarrow> backend w (length (calls w))"
proof -
  define w0 where "w0 = snd (new_Conn w)"
  have nc: "new_Conn w = (nextp w, w0)" by (simp add: w0_def new_Conn_def)
  note f0 = new_Conn_facts [OF nc]
  obtain e w2 where cn: "Conn_Connect (nextp w) (addr (pool w)) (user (pool w)) (password (pool w)) (db (pool w)) w0 = (e, w2)"
    by (cases "Conn_Connect (nextp w) (addr (pool w)) (user (pool w)) (password (pool w)) (db (pool w)) w0")
  note f1 = Conn_Connect_facts [OF cn]
  have eq: "newConn w = (case e of Some x \<Rightarrow> (Inl x, w2) | None \<Rightarrow> (Inr (Some (nextp w)), w2))"
    using nc cn by (simp add: newConn_def f0(2) split: option.splits)
  with assms have r: "r = (case e of Some x \<Rightarrow> Inl x | None \<Rightarrow> Inr (Some (nextp w)))" and w: "w1 = w2"
    by (auto split: option.splits)
  show "pool w1 = pool w" by (simp add: w f1(1) f0(2))
  show "nextp w1 = Suc (nextp w)" by (simp add: w f1(2) f0(3))
  show "q \<noteq> nextp w \<Longrightarrow> heap w1 q = heap w q" by (simp add: w f1(3) f0(4))
  show "r = Inr co \<Longrightarrow> co = Some (nextp w) \<and> connected (heap w1 (nextp w))"
    using r f1(4) w by (cases e) auto
  show "calls w1 = calls w @ [(nextp w, CConnect (addr (pool w)) (user (pool w)) (password (pool w)) (db (pool w)))]"
    by (simp add: w f1(5) f0(5))
  show "backend w1 = backend w" by (simp add: w f1(6) f0(6))
  show "(\<exists>co. r = Inr co) \<longleftrightarrow> backend w (length (calls w))"
    using r f1(7) by (cases e) (auto simp: f0(5) f0(6))
qed


lemma populated_cache_step:
  assumes "populated lo cs i w" and "i < maxConnNum (pool w)" and "i < InitConnNum (pool w)"
    and "newConn w = (Inr conn, w1)" and "send (cacheConns (pool w1)) conn = Returns c"
  shows "populated lo cs (i + 1) (w1\<lparr>pool := (pool w1)\<lparr>cacheConns := Some c\<rparr>\<rparr>)"
proof -
  from assms(1) obtain cc ic where
    cc: "cacheConns (pool w) = Some cc" and ic: "idleConns (pool w) = Some ic" and
    b: "0 \<le> i" "0 \<le> InitConnNum (pool w)" "InitConnNum (pool w) \<le> maxConnNum (pool w)" and
    caps: "cap cc = nat (maxConnNum (pool w))" "cap ic = nat (maxConnNum (pool w))" and
    nx: "nextp w = lo + nat i" and
    bc: "buf cc = map Some [lo ..< lo + nat (min i (InitConnNum (pool w)))]" and
    bi: "buf ic = map Some [lo + nat (min i (InitConnNum (pool w))) ..< lo + nat i]" and
    live: "\<forall>p \<in> set [lo ..< lo + nat (min i (InitConnNum (pool w)))]. connected (heap w p)" and
    cl: "calls w =
          cs @ map (\<lambda>p. (p, CConnect (addr (pool w)) (user (pool w)) (password (pool w)) (db (pool w))))
                 [lo ..< lo + nat (min i (InitConnNum (pool w)))]"
    unfolding populated_iff by blast
  note f = newConn_facts [OF assms(4)]
  from f(4) [of conn] have conn: "conn = Some (nextp w)" and up: "connected (heap w1 (nextp w))"
    by simp_all
  from assms(5) cc have c: "c = cc\<lparr>buf := buf cc @ [conn]\<rparr>"
    by (auto simp: send_def f(1) split: if_splits)
  have m0: "min i (InitConnNum (pool w)) = i" using assms(3) by simp
  have m1: "min (i + 1) (InitConnNum (pool w)) = i + 1" using assms(3) by simp
  have n1: "nat (i + 1) = Suc (nat i)" using b(1) by simp
  have upt: "[lo ..< lo + Suc (nat i)] = [lo ..< lo + nat i] @ [lo + nat i]" by simp
  have live': "\<forall>p \<in> set [lo ..< lo + Suc (nat i)]. connected (heap w1 p)"
  proof
    fix p assume "p \<in> set [lo ..< lo + Suc (nat i)]"
    then consider "p \<in> set [lo ..< lo + nat i]" | "p = lo + nat i" by (auto simp: less_Suc_eq)
    then show "connected (heap w1 p)"
    proof cases
      case 1
      with live m0 have "connected (heap w p)" by simp
      moreover from 1 nx have "p \<noteq> nextp w" by simp
      ultimately show ?thesis using f(3) [of p] by simp
    next
      case 2
      with up nx show ?thesis by simp
    qed
  qed
  show ?thesis
    unfolding populated_iff
    using ic b caps assms(2,3) bc bi live' cl
    by (simp add: f(1) f(2) f(5) c conn nx m0 m1 n1)
qed

lemma populated_idle_step:
  assumes "populated lo cs i w" and "i < maxConnNum (pool w)" and "\<not> i < InitConnNum (pool w)"
    and "new_Conn w = (x, w1)" and "send (idleConns (pool w1)) (Some x) = Returns c"
  shows "populated lo cs (i + 1) (w1\<lparr>pool := (pool w1)\<lparr>idleConns := Some c\<rparr>\<rparr>)"
proof -
  from assms(1) obtain cc ic where
    cc: "cacheConns (pool w) = Some cc" and ic: "idleConns (pool w) = Some ic" and
    b: "0 \<le> i" "0 \<le> InitConnNum (pool w)" "InitConnNum (pool w) \<le> maxConnNum (pool w)" and
    caps: "cap cc = nat (maxConnNum (pool w))" "cap ic = nat (maxConnNum (pool w))" and
    nx: "nextp w = lo + nat i" and
    bc: "buf cc = map Some [lo ..< lo + nat (min i (InitConnNum (pool w)))]" and
    bi: "buf ic = map Some [lo + nat (min i (InitConnNum (pool w))) ..< lo + nat i]" and
    live: "\<forall>p \<in> set [lo ..< lo + nat (min i (InitConnNum (pool w)))]. connected (heap w p)" and
    fresh: "\<forall>p \<in> set [lo + nat (min i (InitConnNum (pool w))) ..< lo + nat i]. heap w p = zero_Conn" and
    cl: "calls w =
          cs @ map (\<lambda>p. (p, CConnect (addr (pool w)) (user (pool w)) (password (pool w)) (db (pool w))))
                 [lo ..< lo + nat (min i (InitConnNum (pool w)))]"
    unfolding populated_iff by blast
  note f = new_Conn_facts [OF assms(4)]
  from assms(5) ic have c: "c = ic\<lparr>buf := buf ic @ [Some x]\<rparr>"
    by (auto simp: send_def f(2) split: if_splits)
  let ?k = "nat (InitConnNum (pool w))"
  have m0: "min i (InitConnNum (pool w)) = InitConnNum (pool w)" using assms(3) by simp
  have m1: "min (i + 1) (InitConnNum (pool w)) = InitConnNum (pool w)" using assms(3) by simp
  have n1: "nat (i + 1) = Suc (nat i)" using b(1) by simp
  have le: "lo + ?k \<le> lo + nat i" using assms(3) b by simp
  have upt: "[lo + ?k ..< lo + Suc (nat i)] = [lo + ?k ..< lo + nat i] @ [lo + nat i]"
    using le by simp
  have live': "\<forall>p \<in> set [lo ..< lo + ?k]. connected (heap w1 p)"
  proof
    fix p assume p: "p \<in> set [lo ..< lo + ?k]"
    with live m0 have "connected (heap w p)" by simp
    moreover from p le nx have "p \<noteq> nextp w" by simp
    ultimately show "connected (heap w1 p)" using f(4) [of p] by simp
  qed
  have fresh': "\<forall>p \<in> set [lo + ?k ..< lo + Suc (nat i)]. heap w1 p = zero_Conn"
  proof
    fix p assume "p \<in> set [lo + ?k ..< lo + Suc (nat i)]"
    then consider "p \<in> set [lo + ?k ..< lo + nat i]" | "p = lo + nat i" by (auto simp: less_Suc_eq)
    then show "heap w1 p = zero_Conn"
    proof cases
      case 1
      with fresh m0 have "heap w p = zero_Conn" by simp
      moreover from 1 nx have "p \<noteq> nextp w" by simp
      ultimately show ?thesis using f(4) [of p] by simp
    next
      case 2
      with f(7) nx show ?thesis by simp
    qed
  qed
  show ?thesis
    unfolding populated_iff
    using cc b caps assms(2,3) bc bi live' fresh' cl upt
    by (simp add: f(1) f(2) f(3) f(5) c nx m0 m1 n1 del: upt_Suc)
qed

lemma seq_const_neq:
  "e \<noteq> e' \<Longrightarrow> seq m (\<lambda>_ w2. (Returns e, w2)) \<noteq> (Returns e', w')"
  by (cases m) (auto simp: seq_def split: result.splits)

lemma Open_loop_populates:
  "populated lo cs i w \<Longrightarrow> Open_loop i w = (Returns None, w') \<Longrightarrow>
     populated lo cs (maxConnNum (pool w)) w' \<and>
     pool w' = (pool w)\<lparr>cacheConns := cacheConns (pool w'), idleConns := idleConns (pool w')\<rparr>"
proof (induction i w rule: Open_loop.induct)
  case (1 i w)
  show ?case
  proof (cases "i < maxConnNum (pool w)")
    case False
    with "1.prems"(2) have w': "w' = w" by (simp add: Open_loop.simps)
    from "1.prems"(1) False have "i = maxConnNum (pool w)" by (auto simp: populated_iff)
    with "1.prems"(1) w' show ?thesis by simp
  next
    case True
    show ?thesis
    proof (cases "i < InitConnNum (pool w)")
      case init: True
      obtain r w1 where nc: "newConn w = (r, w1)" by (cases "newConn w")
      note f = newConn_facts [OF nc]
      show ?thesis
      proof (cases r)
        case (Inl err)
        with True init nc "1.prems"(2) show ?thesis
          by (simp add: Open_loop.simps seq_const_neq)
      next
        case (Inr conn)
        show ?thesis
        proof (cases "send (cacheConns (pool w1)) conn")
          case (Returns c)
          let ?w2 = "w1\<lparr>pool := (pool w1)\<lparr>cacheConns := Some c\<rparr>\<rparr>"
          from True init nc Inr Returns "1.prems"(2)
          have run: "Open_loop (i + 1) ?w2 = (Returns None, w')"
            by (simp add: Open_loop.simps [of i w])
          have pop: "populated lo cs (i + 1) ?w2"
            using "1.prems"(1) True init nc [unfolded Inr] Returns by (rule populated_cache_step)
          from "1.IH"(1) [OF True init nc [symmetric] Inr Returns pop run]
          have "populated lo cs (maxConnNum (pool w)) w'"
            and "pool w' = (pool w)\<lparr>cacheConns := Some c\<rparr>
                   \<lparr>cacheConns := cacheConns (pool w'), idleConns := idleConns (pool w')\<rparr>"
            by (simp_all add: f(1))
          then show ?thesis by simp
        next
          case Parks
          with True init nc Inr "1.prems"(2) show ?thesis by (simp add: Open_loop.simps [of i w])
        next
          case Panics
          with True init nc Inr "1.prems"(2) show ?thesis by (simp add: Open_loop.simps [of i w])
        qed
      qed
    next
      case init: False
      obtain x w1 where nc: "new_Conn w = (x, w1)" by (cases "new_Conn w")
      note f = new_Conn_facts [OF nc]
      show ?thesis
      proof (cases "send (idleConns (pool w1)) (Some x)")
        case (Returns c)
        let ?w2 = "w1\<lparr>pool := (pool w1)\<lparr>idleConns := Some c\<rparr>\<rparr>"
        from True init nc Returns "1.prems"(2)
        have run: "Open_loop (i + 1) ?w2 = (Returns None, w')"
          by (simp add: Open_loop.simps [of i w])
        have pop: "populated lo cs (i + 1) ?w2"
          using "1.prems"(1) True init nc Returns by (rule populated_idle_step)
        from "1.IH"(2) [OF True init nc [symmetric] Returns pop run]
        have "populated lo cs (maxConnNum (pool w)) w'"
          and "pool w' = (pool w)\<lparr>idleConns := Some c\<rparr>
                 \<lparr>cacheConns := cacheConns (pool w'), idleConns := idleConns (pool w')\<rparr>"
          by (simp_all add: f(2))
        then show ?thesis by simp
      next
        case Parks
        with True init nc "1.prems"(2) show ?thesis by (simp add: Open_loop.simps [of i w])
      next
        case Panics
        with True init nc "1.prems"(2) show ?thesis by (simp add: Open_loop.simps [of i w])
      qed
    qed
  qed
qed


lemma Open_loop_accepted:
  "populated lo cs i w \<Longrightarrow> \<forall>k \<ge> length (calls w). backend w k \<Longrightarrow>
     \<exists>w'. Open_loop i w = (Returns None, w')"
proof (induction i w rule: Open_loop.induct)
  case (1 i w)
  from "1.prems"(1) obtain cc ic where
    cc: "cacheConns (pool w) = Some cc" and ic: "idleConns (pool w) = Some ic" and
    caps: "cap cc = nat (maxConnNum (pool w))" "cap ic = nat (maxConnNum (pool w))" and
    bc: "buf cc = map Some [lo ..< lo + nat (min i (InitConnNum (pool w)))]" and
    bi: "buf ic = map Some [lo + nat (min i (InitConnNum (pool w))) ..< lo + nat i]" and
    b: "0 \<le> i" "0 \<le> InitConnNum (pool w)"
    unfolding populated_iff by blast
  have lc: "int (length (buf cc)) = min i (InitConnNum (pool w))"
    using b by (simp add: bc)
  have li: "int (length (buf ic)) = i - min i (InitConnNum (pool w))"
    using b by (simp add: bi)
  show ?case
  proof (cases "i < maxConnNum (pool w)")
    case False
    then show ?thesis by (simp add: Open_loop.simps)
  next
    case True
    show ?thesis
    proof (cases "i < InitConnNum (pool w)")
      case init: True
      obtain r w1 where nc: "newConn w = (r, w1)" by (cases "newConn w")
      note f = newConn_facts [OF nc]
      from f(7) "1.prems"(2) obtain conn where r: "r = Inr conn" by auto
      have room: "length (buf cc) < cap cc" using caps lc True init by linarith
      then have snd: "send (cacheConns (pool w1)) conn = Returns (cc\<lparr>buf := buf cc @ [conn]\<rparr>)"
        using cc by (simp add: send_def f(1))
      let ?w2 = "w1\<lparr>pool := (pool w1)\<lparr>cacheConns := Some (cc\<lparr>buf := buf cc @ [conn]\<rparr>)\<rparr>\<rparr>"
      have pop: "populated lo cs (i + 1) ?w2"
        using "1.prems"(1) True init nc [unfolded r] snd by (rule populated_cache_step)
      have acc: "\<forall>k \<ge> length (calls ?w2). backend ?w2 k"
        using "1.prems"(2) by (simp add: f(5) f(6))
      from "1.IH"(1) [OF True init nc [symmetric] r snd pop acc]
      show ?thesis using True init nc r snd by (simp add: Open_loop.simps [of i w])
    next
      case init: False
      obtain x w1 where nc: "new_Conn w = (x, w1)" by (cases "new_Conn w")
      note f = new_Conn_facts [OF nc]
      have room: "length (buf ic) < cap ic" using caps li True init b by linarith
      then have snd: "send (idleConns (pool w1)) (Some x) = Returns (ic\<lparr>buf := buf ic @ [Some x]\<rparr>)"
        using ic by (simp add: send_def f(2))
      let ?w2 = "w1\<lparr>pool := (pool w1)\<lparr>idleConns := Some (ic\<lparr>buf := buf ic @ [Some x]\<rparr>)\<rparr>\<rparr>"
      have pop: "populated lo cs (i + 1) ?w2"
        using "1.prems"(1) True init nc snd by (rule populated_idle_step)
      have acc: "\<forall>k \<ge> length (calls ?w2). backend ?w2 k"
        using "1.prems"(2) by (simp add: f(5) f(6))
      from "1.IH"(2) [OF True init nc [symmetric] snd pop acc]
      show ?thesis using True init nc snd by (simp add: Open_loop.simps [of i w])
    qed
  qed
qed

lemma Open_unfold:
  assumes "newConn (w0\<lparr>pool :=
                \<lparr>addr = a, user = u, password = pw, db = d, state = 0,
                 maxConnNum = (if 0 < n then n else DefaultMaxConnNum),
                 InitConnNum = (if 0 < n then (if n < 16 then n else n div 4) else InitConnCount),
                 idleConns = None, cacheConns = None, checkConn = None\<rparr>\<rparr>) = (Inr co, w1)"
  shows "Open a u pw d n w0 =
           Open_loop 0
             (w1\<lparr>pool := (pool w1)
                \<lparr>checkConn := co,
                 idleConns := Some \<lparr>buf = [], cap = nat (maxConnNum (pool w1))\<rparr>,
                 cacheConns := Some \<lparr>buf = [], cap = nat (maxConnNum (pool w1))\<rparr>,
                 state := Unknown\<rparr>\<rparr>)"
  using assms by (simp add: Open_def)

lemma Open_start_populated:
  assumes "maxConnNum (pool w1) = (if 0 < n then n else DefaultMaxConnNum)"
    and "InitConnNum (pool w1) = (if 0 < n then (if n < 16 then n else n div 4) else InitConnCount)"
  shows "populated (nextp w1) (calls w1) 0
           (w1\<lparr>pool := (pool w1)
              \<lparr>checkConn := co,
               idleConns := Some \<lparr>buf = [], cap = nat (maxConnNum (pool w1))\<rparr>,
               cacheConns := Some \<lparr>buf = [], cap = nat (maxConnNum (pool w1))\<rparr>,
               state := Unknown\<rparr>\<rparr>)"
  unfolding populated_iff using assms
  by (auto simp: DefaultMaxConnNum_def InitConnCount_def)

lemma Open_success:
  assumes "Open a u pw d n w0 = (Returns None, w)"
  shows "populated (Suc (nextp w0)) (calls w0 @ [(nextp w0, CConnect a u pw d)])
           (maxConnNum (pool w)) w \<and>
         pool w =
           \<lparr>addr = a, user = u, password = pw, db = d, state = Unknown,
            maxConnNum = (if 0 < n then n else 1024),
            InitConnNum = (if 0 < n then (if n < 16 then n else n div 4) else 16),
            idleConns = idleConns (pool w), cacheConns = cacheConns (pool w),
            checkConn = Some (nextp w0)\<rparr>"
proof -
  let ?w = "w0\<lparr>pool :=
                \<lparr>addr = a, user = u, password = pw, db = d, state = 0,
                 maxConnNum = (if 0 < n then n else DefaultMaxConnNum),
                 InitConnNum = (if 0 < n then (if n < 16 then n else n div 4) else InitConnCount),
                 idleConns = None, cacheConns = None, checkConn = None\<rparr>\<rparr>"
  obtain r w1 where nc: "newConn ?w = (r, w1)" by (cases "newConn ?w")
  note f = newConn_facts [OF nc]
  show ?thesis
  proof (cases r)
    case (Inl err)
    with nc assms show ?thesis by (simp add: Open_def seq_const_neq)
  next
    case (Inr co)
    let ?ws = "w1\<lparr>pool := (pool w1)
                \<lparr>checkConn := co,
                 idleConns := Some \<lparr>buf = [], cap = nat (maxConnNum (pool w1))\<rparr>,
                 cacheConns := Some \<lparr>buf = [], cap = nat (maxConnNum (pool w1))\<rparr>,
                 state := Unknown\<rparr>\<rparr>"
    from f(4) [OF Inr] have co: "co = Some (nextp w0)" and up: "connected (heap w1 (nextp w0))"
      by simp_all
    have mx: "maxConnNum (pool w1) = (if 0 < n then n else DefaultMaxConnNum)"
      and ini: "InitConnNum (pool w1) = (if 0 < n then (if n < 16 then n else n div 4) else InitConnCount)"
      by (simp_all add: f(1))
    have nx: "nextp w1 = Suc (nextp w0)" and cl: "calls w1 = calls w0 @ [(nextp w0, CConnect a u pw d)]"
      by (simp_all add: f(2) f(5))
    from Open_unfold [OF nc [unfolded Inr]] assms
    have run: "Open_loop 0 ?ws = (Returns None, w)" by simp
    from Open_loop_populates [OF Open_start_populated [OF mx ini] run]
    have pop: "populated (Suc (nextp w0)) (calls w0 @ [(nextp w0, CConnect a u pw d)]) (maxConnNum (pool ?ws)) w"
      and pl: "pool w = (pool ?ws)\<lparr>cacheConns := cacheConns (pool w), idleConns := idleConns (pool w)\<rparr>"
      by (simp_all add: nx cl)
    have mw: "maxConnNum (pool w) = maxConnNum (pool ?ws)" by (subst pl) simp
    have "pool w =
           \<lparr>addr = a, user = u, password = pw, db = d, state = Unknown,
            maxConnNum = (if 0 < n then n else 1024),
            InitConnNum = (if 0 < n then (if n < 16 then n else n div 4) else 16),
            idleConns = idleConns (pool w), cacheConns = cacheConns (pool w),
            checkConn = Some (nextp w0)\<rparr>"
      by (subst pl) (simp add: f(1) co DefaultMaxConnNum_def InitConnCount_def)
    with pop mw show ?thesis by simp
  qed
qed

lemma Open_accepted:
  assumes "\<forall>k \<ge> length (calls w0). backend w0 k"
  shows "\<exists>w. Open a u pw d n w0 = (Returns None, w)"
proof -
  let ?w = "w0\<lparr>pool :=
                \<lparr>addr = a, user = u, password = pw, db = d, state = 0,
                 maxConnNum = (if 0 < n then n else DefaultMaxConnNum),
                 InitConnNum = (if 0 < n then (if n < 16 then n else n div 4) else InitConnCount),
                 idleConns = None, cacheConns = None, checkConn = None\<rparr>\<rparr>"
  obtain r w1 where nc: "newConn ?w = (r, w1)" by (cases "newConn ?w")
  note f = newConn_facts [OF nc]
  from f(7) assms obtain co where r: "r = Inr co" by auto
  let ?ws = "w1\<lparr>pool := (pool w1)
              \<lparr>checkConn := co,
               idleConns := Some \<lparr>buf = [], cap = nat (maxConnNum (pool w1))\<rparr>,
               cacheConns := Some \<lparr>buf = [], cap = nat (maxConnNum (pool w1))\<rparr>,
               state := Unknown\<rparr>\<rparr>"
  have mx: "maxConnNum (pool w1) = (if 0 < n then n else DefaultMaxConnNum)"
    and ini: "InitConnNum (pool w1) = (if 0 < n then (if n < 16 then n else n div 4) else InitConnCount)"
    by (simp_all add: f(1))
  have acc: "\<forall>k \<ge> length (calls ?ws). backend ?ws k"
    using assms by (simp add: f(5) f(6))
  from Open_loop_accepted [OF Open_start_populated [OF mx ini] acc]
  show ?thesis by (simp add: Open_unfold [OF nc [unfolded r]])
qed

subsection \<open>Capacity, opening and release\<close>

lemma upt_split: "(k::nat) \<le> m \<Longrightarrow> [lo ..< lo + k] @ [lo + k ..< lo + m] = [lo ..< lo + m]"
  using upt_add_eq_append [of lo "lo + k" "m - k"] by simp

lemma populated_capacity_inv:
  assumes "populated lo cs (maxConnNum (pool w)) w"
  shows "capacity_inv (maxConnNum (pool w)) w []"
proof -
  from assms obtain cc ic where
    cc: "cacheConns (pool w) = Some cc" and ic: "idleConns (pool w) = Some ic" and
    b: "0 \<le> InitConnNum (pool w)" "InitConnNum (pool w) \<le> maxConnNum (pool w)" and
    capic: "cap ic = nat (maxConnNum (pool w))" and
    bc: "buf cc = map Some [lo ..< lo + nat (min (maxConnNum (pool w)) (InitConnNum (pool w)))]" and
    bi: "buf ic = map Some [lo + nat (min (maxConnNum (pool w)) (InitConnNum (pool w))) ..<
                            lo + nat (maxConnNum (pool w))]"
    unfolding populated_iff by blast
  have "None \<notin> set (buf cc)" "None \<notin> set (buf ic)" by (auto simp: bc bi)
  moreover have "int (length (buf cc)) + int (length (buf ic)) + int (length ([] :: nat list)) =
      maxConnNum (pool w)"
    using b by (simp add: bc bi)
  ultimately show ?thesis using cc ic capic by (simp add: capacity_inv_iff)
qed

text \<open>
  C1. Start from the pool that a successful \<open>Open\<close> returns and let callers acquire
  sessions, use them, release sessions (through the handle, through \<open>PushConn\<close> or
  through \<open>closeConn\<close>) and probe the backend, in any order. If every release in the run
  is of a session that is handed out and not yet released at that moment, then after
  the run both channels are attached, and the sessions in \<open>cacheConns\<close>, the Conn
  objects in \<open>idleConns\<close> and the sessions handed out and not yet released add up to
  \<open>maxConnNum\<close>, which is the value \<open>Open\<close> gave it.
\<close>

theorem capacity_accounting:
  assumes "Open a u pw d n w0 = (Returns None, w)" and "releases_held es (w, [])"
    and "run es (w, []) = (w', B)"
  shows "\<exists>cc ic. cacheConns (pool w') = Some cc \<and> idleConns (pool w') = Some ic \<and>
           int (length (buf cc)) + int (length (buf ic)) + int (length B) = maxConnNum (pool w') \<and>
           maxConnNum (pool w') = maxConnNum (pool w)"
proof -
  from Open_success [OF assms(1)]
  have "populated (Suc (nextp w0)) (calls w0 @ [(nextp w0, CConnect a u pw d)]) (maxConnNum (pool w)) w"
    by (rule conjunct1)
  then have "capacity_inv (maxConnNum (pool w)) w []" by (rule populated_capacity_inv)
  from run_inv [OF this assms(2)] assms(3) show ?thesis by (auto simp: capacity_inv_iff)
qed

theorem capacity_accounting_witness:
  "Open ''127.0.0.1:3306'' ''root'' ''secret'' ''test'' 2 (boot accepting) = (Returns None, opened 2) \<and>
   releases_held example_run (opened 2, []) \<and>
   run example_run (opened 2, []) =
     (fst (run example_run (opened 2, [])), snd (run example_run (opened 2, []))) \<and>
   (\<exists>cc ic. cacheConns (pool (fst (run example_run (opened 2, [])))) = Some cc \<and>
      idleConns (pool (fst (run example_run (opened 2, [])))) = Some ic \<and>
      int (length (buf cc)) + int (length (buf ic)) + int (length (snd (run example_run (opened 2, [])))) =
        maxConnNum (pool (fst (run example_run (opened 2, [])))) \<and>
      maxConnNum (pool (fst (run example_run (opened 2, [])))) = maxConnNum (pool (opened 2)))"
proof -
  have "fst (Open ''127.0.0.1:3306'' ''root'' ''secret'' ''test'' 2 (boot accepting)) = Returns None"
    by code_simp
  then have op: "Open ''127.0.0.1:3306'' ''root'' ''secret'' ''test'' 2 (boot accepting) = (Returns None, opened 2)"
    by (simp add: opened_def prod_eq_iff)
  have rh: "releases_held example_run (opened 2, [])"
    unfolding opened_def by code_simp
  have rn: "run example_run (opened 2, []) =
     (fst (run example_run (opened 2, [])), snd (run example_run (opened 2, [])))"
    by simp
  from capacity_accounting [OF op rh rn] op rh rn show ?thesis by blast
qed

theorem double_release_counterexample:
  "fst (Open ''127.0.0.1:3306'' ''root'' ''secret'' ''test'' 20 (boot accepting)) = Returns None \<and>
   fst (GetConn (opened 20)) = Returns (Inr handle1) \<and>
   fst (BackendConn_Close handle1 (held 20)) = Returns () \<and>
   fst (BackendConn_Close handle1 (snd (BackendConn_Close handle1 (held 20)))) = Returns () \<and>
   chan_len (cacheConns (pool (fst (run double_release (opened 20, []))))) = 6 \<and>
   chan_len (idleConns (pool (fst (run double_release (opened 20, []))))) = 15 \<and>
   snd (run double_release (opened 20, [])) = [] \<and>
   maxConnNum (pool (fst (run double_release (opened 20, [])))) = 20 \<and>
   int (chan_len (cacheConns (pool (fst (run double_release (opened 20, [])))))) +
   int (chan_len (idleConns (pool (fst (run double_release (opened 20, [])))))) +
   int (length (snd (run double_release (opened 20, [])))) \<noteq>
     maxConnNum (pool (fst (run double_release (opened 20, []))))"
  unfolding opened_def held_def handle1_def by code_simp

text \<open>
  C5. After a successful \<open>Open(addr, user, pass, db, maxN)\<close> the channel \<open>cacheConns\<close>
  holds exactly \<open>InitConnNum\<close> sessions and the two channels together hold \<open>maxConnNum\<close>
  entries; for \<open>maxN > 0\<close> \<open>maxConnNum\<close> is \<open>maxN\<close> and \<open>InitConnNum\<close> is \<open>maxN\<close> when
  \<open>maxN < 16\<close> and \<open>maxN / 4\<close> otherwise, and for \<open>maxN \<le> 0\<close> they are 1024 and 16. The
  entries are the Conn objects that \<open>Open\<close> allocated after the health-check session,
  one after the other and each once: the first \<open>InitConnNum\<close> of them are in
  \<open>cacheConns\<close>, each connected by a \<open>Connect\<close> of its own with the address and
  credentials given to \<open>Open\<close>, and the others are in \<open>idleConns\<close> as \<open>new(Conn)\<close> left
  them. \<open>Open\<close> has made no other call than these connects and the one of the
  health-check session.
\<close>

theorem Open_populates:
  assumes "Open a u pw d n w0 = (Returns None, w)"
  shows "\<exists>cc ic. cacheConns (pool w) = Some cc \<and> idleConns (pool w) = Some ic \<and>
           int (length (buf cc)) = InitConnNum (pool w) \<and>
           int (length (buf cc)) + int (length (buf ic)) = maxConnNum (pool w) \<and>
           (\<forall>x \<in> set (buf cc). \<exists>p. x = Some p \<and> connected (heap w p)) \<and>
           maxConnNum (pool w) = (if 0 < n then n else 1024) \<and>
           InitConnNum (pool w) = (if 0 < n then (if n < 16 then n else n div 4) else 16) \<and>
           buf cc = map Some [Suc (nextp w0) ..< Suc (nextp w0) + nat (InitConnNum (pool w))] \<and>
           buf ic = map Some [Suc (nextp w0) + nat (InitConnNum (pool w)) ..<
                              Suc (nextp w0) + nat (maxConnNum (pool w))] \<and>
           cap cc = nat (maxConnNum (pool w)) \<and> cap ic = nat (maxConnNum (pool w)) \<and>
           distinct (buf cc @ buf ic) \<and>
           checkConn (pool w) = Some (nextp w0) \<and> Some (nextp w0) \<notin> set (buf cc @ buf ic) \<and>
           (\<forall>x \<in> set (buf ic). \<exists>p. x = Some p \<and> heap w p = zero_Conn) \<and>
           addr (pool w) = a \<and> user (pool w) = u \<and> password (pool w) = pw \<and> db (pool w) = d \<and>
           calls w =
             calls w0 @ map (\<lambda>p. (p, CConnect a u pw d))
                          [nextp w0 ..< Suc (nextp w0) + nat (InitConnNum (pool w))]"
proof -
  let ?lo = "Suc (nextp w0)"
  let ?I = "InitConnNum (pool w)"
  let ?M = "maxConnNum (pool w)"
  from Open_success [OF assms] have
    pop: "populated ?lo (calls w0 @ [(nextp w0, CConnect a u pw d)]) ?M w" and
    pl: "pool w =
           \<lparr>addr = a, user = u, password = pw, db = d, state = Unknown,
            maxConnNum = (if 0 < n then n else 1024),
            InitConnNum = (if 0 < n then (if n < 16 then n else n div 4) else 16),
            idleConns = idleConns (pool w), cacheConns = cacheConns (pool w),
            checkConn = Some (nextp w0)\<rparr>"
    by blast+
  have mx: "?M = (if 0 < n then n else 1024)"
    and ini: "?I = (if 0 < n then (if n < 16 then n else n div 4) else 16)"
    and ck: "checkConn (pool w) = Some (nextp w0)"
    and id: "addr (pool w) = a" "user (pool w) = u" "password (pool w) = pw" "db (pool w) = d"
    by (subst pl, simp)+
  from pop obtain cc ic where
    cc: "cacheConns (pool w) = Some cc" and ic: "idleConns (pool w) = Some ic" and
    b: "0 \<le> ?I" "?I \<le> ?M" and
    caps: "cap cc = nat ?M" "cap ic = nat ?M" and
    bc0: "buf cc = map Some [?lo ..< ?lo + nat (min ?M ?I)]" and
    bi0: "buf ic = map Some [?lo + nat (min ?M ?I) ..< ?lo + nat ?M]" and
    live0: "\<forall>p \<in> set [?lo ..< ?lo + nat (min ?M ?I)]. connected (heap w p)" and
    fresh0: "\<forall>p \<in> set [?lo + nat (min ?M ?I) ..< ?lo + nat ?M]. heap w p = zero_Conn" and
    cl0: "calls w =
          (calls w0 @ [(nextp w0, CConnect a u pw d)]) @
            map (\<lambda>p. (p, CConnect (addr (pool w)) (user (pool w)) (password (pool w)) (db (pool w))))
              [?lo ..< ?lo + nat (min ?M ?I)]"
    unfolding populated_iff by blast
  have mn: "min ?M ?I = ?I" using b by simp
  note bc = bc0 [unfolded mn] and bi = bi0 [unfolded mn]
  note live = live0 [unfolded mn] and fresh = fresh0 [unfolded mn]
  have l1: "length (buf cc) = nat ?I" and l2: "length (buf ic) = nat ?M - nat ?I"
    by (simp_all add: bc bi del: upt_Suc)
  have len: "int (length (buf cc)) = ?I"
    "int (length (buf cc)) + int (length (buf ic)) = ?M"
    using b l1 l2 by linarith+
  have liv: "\<forall>x \<in> set (buf cc). \<exists>p. x = Some p \<and> connected (heap w p)"
    using live by (auto simp: bc)
  have fre: "\<forall>x \<in> set (buf ic). \<exists>p. x = Some p \<and> heap w p = zero_Conn"
    using fresh by (auto simp: bi)
  have "buf cc @ buf ic = map Some ([?lo ..< ?lo + nat ?I] @ [?lo + nat ?I ..< ?lo + nat ?M])"
    by (simp add: bc bi)
  also have "[?lo ..< ?lo + nat ?I] @ [?lo + nat ?I ..< ?lo + nat ?M] = [?lo ..< ?lo + nat ?M]"
  proof (rule upt_split)
    show "nat ?I \<le> nat ?M" using b by simp
  qed
  finally have all: "buf cc @ buf ic = map Some [?lo ..< ?lo + nat ?M]" .
  have dis: "distinct (buf cc @ buf ic)"
    unfolding all by (simp add: distinct_map)
  have out: "Some (nextp w0) \<notin> set (buf cc @ buf ic)"
    unfolding all by auto
  have "[nextp w0 ..< ?lo + nat ?I] = nextp w0 # [?lo ..< ?lo + nat ?I]"
    by (simp add: upt_conv_Cons)
  then have cl: "calls w =
      calls w0 @ map (\<lambda>p. (p, CConnect a u pw d)) [nextp w0 ..< ?lo + nat ?I]"
    using cl0 [unfolded mn] by (simp add: id)
  from cc ic len liv mx ini bc bi caps dis ck out fre id cl show ?thesis by blast
qed

theorem Open_populates_witness:
  "Open ''127.0.0.1:3306'' ''root'' ''secret'' ''test'' 20 (boot accepting) = (Returns None, opened 20) \<and>
   (\<exists>cc ic. cacheConns (pool (opened 20)) = Some cc \<and> idleConns (pool (opened 20)) = Some ic \<and>
            int (length (buf cc)) = InitConnNum (pool (opened 20)) \<and>
            int (length (buf cc)) + int (length (buf ic)) = maxConnNum (pool (opened 20)) \<and>
            (\<forall>x \<in> set (buf cc). \<exists>p. x = Some p \<and> connected (heap (opened 20) p)) \<and>
            maxConnNum (pool (opened 20)) = (if 0 < (20::int) then 20 else 1024) \<and>
            InitConnNum (pool (opened 20)) = (if 0 < (20::int) then (if (20::int) < 16 then 20 else 20 div 4) else 16) \<and>
            buf cc = map Some [Suc (nextp (boot accepting)) ..< Suc (nextp (boot accepting)) + nat (InitConnNum (pool (opened 20)))] \<and>
            buf ic = map Some [Suc (nextp (boot accepting)) + nat (InitConnNum (pool (opened 20))) ..<
                               Suc (nextp (boot accepting)) + nat (maxConnNum (pool (opened 20)))] \<and>
            cap cc = nat (maxConnNum (pool (opened 20))) \<and> cap ic = nat (maxConnNum (pool (opened 20))) \<and>
            distinct (buf cc @ buf ic) \<and>
            checkConn (pool (opened 20)) = Some (nextp (boot accepting)) \<and> Some (nextp (boot accepting)) \<notin> set (buf cc @ buf ic) \<and>
            (\<forall>x \<in> set (buf ic). \<exists>p. x = Some p \<and> heap (opened 20) p = zero_Conn) \<and>
            addr (pool (opened 20)) = ''127.0.0.1:3306'' \<and> user (pool (opened 20)) = ''root'' \<and> password (pool (opened 20)) = ''secret'' \<and> db (pool (opened 20)) = ''test'' \<and>
            calls (opened 20) =
              calls (boot accepting) @ map (\<lambda>p. (p, CConnect ''127.0.0.1:3306'' ''root'' ''secret'' ''test''))
                           [nextp (boot accepting) ..< Suc (nextp (boot accepting)) + nat (InitConnNum (pool (opened 20)))])"
proof -
  have "fst (Open ''127.0.0.1:3306'' ''root'' ''secret'' ''test'' 20 (boot accepting)) = Returns None"
    by code_simp
  then have op: "Open ''127.0.0.1:3306'' ''root'' ''secret'' ''test'' 20 (boot accepting) = (Returns None, opened 20)"
    by (simp add: opened_def prod_eq_iff)
  show ?thesis by (rule conjI [OF op Open_populates [OF op]])
qed

text \<open>
  C9. \<open>PushConn\<close> of a nil session returns at once and changes nothing: neither a
  channel nor any other field of the pool, nor any session.
\<close>

theorem PushConn_nil: "PushConn None err w = (Returns (), w)"
  by (simp add: PushConn_def)

text \<open>
  C10. After the pool has been shut down (\<open>cacheConns\<close> is nil), \<open>PushConn\<close> of a session
  closes the session and returns; no field of the pool changes, whatever the error
  argument is. The session enters no channel.
\<close>

theorem PushConn_after_shutdown:
  assumes "cacheConns (pool w) = None"
  shows "PushConn (Some p) err w = (Returns (), Conn_Close p w) \<and>
         pool (Conn_Close p w) = pool w \<and>
         \<not> connected (heap (Conn_Close p w) p) \<and>
         calls (Conn_Close p w) = calls w @ [(p, CClose)]"
  using assms
  by (simp add: PushConn_def getCacheConns_def Conn_Close_def set_conn_def record_call_def)

theorem PushConn_after_shutdown_witness:
  "cacheConns (pool shut) = None \<and>
   PushConn (Some 1) None shut = (Returns (), Conn_Close 1 shut) \<and>
   pool (Conn_Close 1 shut) = pool shut \<and>
   \<not> connected (heap (Conn_Close 1 shut) 1) \<and>
   calls (Conn_Close 1 shut) = calls shut @ [(1, CClose)]"
proof -
  have h: "cacheConns (pool shut) = None"
    unfolding shut_def held_def opened_def by code_simp
  show ?thesis
    using h PushConn_after_shutdown [OF h, of 1 None] by simp
qed

text \<open>
  C8. On a session that is clean (no open transaction, autocommit enabled, the default
  charset) \<open>tryReuse\<close> returns no error and makes three calls only, the queries
  IsInTransaction, IsAutoCommit and GetCharset: no Rollback, no exec, no SetCharset.
  The session and the pool are as before.
\<close>

theorem tryReuse_clean:
  assumes "\<not> in_transaction (heap w p)" and "auto_commit (heap w p)"
    and "charset (heap w p) = DEFAULT_CHARSET"
  shows "tryReuse (Some p) w =
           (Returns None,
            w\<lparr>calls := calls w @ [(p, CIsInTransaction), (p, CIsAutoCommit), (p, CGetCharset)]\<rparr>)"
  using assms
  by (simp add: tryReuse_def Conn_IsInTransaction_def Conn_IsAutoCommit_def Conn_GetCharset_def
      record_call_def)

theorem tryReuse_clean_witness:
  "\<not> in_transaction (heap lone_clean 0) \<and> auto_commit (heap lone_clean 0) \<and>
   charset (heap lone_clean 0) = DEFAULT_CHARSET \<and>
   tryReuse (Some 0) lone_clean =
     (Returns None,
      lone_clean\<lparr>calls := calls lone_clean @ [(0, CIsInTransaction), (0, CIsAutoCommit), (0, CGetCharset)]\<rparr>)"
proof -
  have h1: "\<not> in_transaction (heap lone_clean 0)"
    and h2: "auto_commit (heap lone_clean 0)"
    and h3: "charset (heap lone_clean 0) = DEFAULT_CHARSET"
    by (simp_all add: lone_clean_def set_conn_def clean_Conn_def DEFAULT_CHARSET_def)
  from tryReuse_clean [OF h1 h2 h3] h1 h2 h3 show ?thesis by simp
qed


text \<open>
  C6. When the connect of the health-check session fails, \<open>Open\<close> makes no further
  call, allocates neither channel and returns \<open>ErrDatabaseClose\<close>, the error that
  \<open>PopConn\<close> returns on a closed pool.
\<close>

theorem Open_health_check_fails:
  assumes "\<not> backend w0 (length (calls w0))"
  shows "fst (Open a u pw d n w0) = Returns (Some ErrDatabaseClose) \<and>
         cacheConns (pool (snd (Open a u pw d n w0))) = None \<and>
         idleConns (pool (snd (Open a u pw d n w0))) = None \<and>
         checkConn (pool (snd (Open a u pw d n w0))) = None \<and>
         calls (snd (Open a u pw d n w0)) = calls w0 @ [(nextp w0, CConnect a u pw d)]"
proof -
  let ?w = "w0\<lparr>pool :=
                \<lparr>addr = a, user = u, password = pw, db = d, state = 0,
                 maxConnNum = (if 0 < n then n else DefaultMaxConnNum),
                 InitConnNum = (if 0 < n then (if n < 16 then n else n div 4) else InitConnCount),
                 idleConns = None, cacheConns = None, checkConn = None\<rparr>\<rparr>"
  obtain r w1 where nc: "newConn ?w = (r, w1)" by (cases "newConn ?w")
  note f = newConn_facts [OF nc]
  from f(7) assms obtain err where r: "r = Inl err" by (cases r) auto
  have "Open a u pw d n w0 =
          seq (Close (w1\<lparr>pool := (pool w1)\<lparr>checkConn := None\<rparr>\<rparr>))
            (\<lambda>_ w2. (Returns (Some ErrDatabaseClose), w2))"
    using nc r by (simp add: Open_def)
  also have "Close (w1\<lparr>pool := (pool w1)\<lparr>checkConn := None\<rparr>\<rparr>) =
          (Returns None, w1\<lparr>pool := (pool w1)\<lparr>checkConn := None, cacheConns := None, idleConns := None\<rparr>\<rparr>)"
    by (simp add: Close_def f(1))
  finally have "Open a u pw d n w0 =
      (Returns (Some ErrDatabaseClose),
       w1\<lparr>pool := (pool w1)\<lparr>checkConn := None, cacheConns := None, idleConns := None\<rparr>\<rparr>)"
    by simp
  then show ?thesis by (simp add: f(5))
qed

theorem Open_health_check_fails_witness:
  "\<not> backend (boot refusing) (length (calls (boot refusing))) \<and>
   fst (Open ''127.0.0.1:3306'' ''root'' ''secret'' ''test'' 4 (boot refusing)) = Returns (Some ErrDatabaseClose) \<and>
   cacheConns (pool (snd (Open ''127.0.0.1:3306'' ''root'' ''secret'' ''test'' 4 (boot refusing)))) = None \<and>
   idleConns (pool (snd (Open ''127.0.0.1:3306'' ''root'' ''secret'' ''test'' 4 (boot refusing)))) = None \<and>
   checkConn (pool (snd (Open ''127.0.0.1:3306'' ''root'' ''secret'' ''test'' 4 (boot refusing)))) = None \<and>
   calls (snd (Open ''127.0.0.1:3306'' ''root'' ''secret'' ''test'' 4 (boot refusing))) =
     [(0, CConnect ''127.0.0.1:3306'' ''root'' ''secret'' ''test'')]"
proof -
  have h: "\<not> backend (boot refusing) (length (calls (boot refusing)))"
    by (simp add: boot_def refusing_def)
  from Open_health_check_fails [OF h, of "''127.0.0.1:3306''" "''root''" "''secret''" "''test''" 4] h
  show ?thesis by (simp add: boot_def)
qed

theorem Open_health_check_counterexample:
  "fst (Open ''127.0.0.1:3306'' ''root'' ''secret'' ''test'' 4 (boot refusing)) = Returns (Some ErrDatabaseClose) \<and>
   fst (Open ''127.0.0.1:3306'' ''root'' ''secret'' ''test'' 4 (boot refusing)) \<noteq> Returns (Some ErrDBPoolInit)"
  by code_simp

subsection \<open>Shutdown, the handle and sanitation\<close>

lemma closeConn_detached:
  assumes "idleConns (pool w) = None"
  shows "closeConn (Some p) w = (Parks, Conn_Close p w)"
  using assms by (simp add: closeConn_def getIdleConns_def send_def)

lemma drain_detached:
  "idleConns (pool w) = None \<Longrightarrow>
     pool (snd (drain xs w)) = pool w \<and>
     fst (drain xs w) = (if \<exists>p. Some p \<in> set xs then Parks else Returns ())"
proof (induction xs arbitrary: w)
  case Nil
  then show ?case by simp
next
  case (Cons x xs)
  show ?case
  proof (cases x)
    case None
    with Cons show ?thesis by (simp add: closeConn_def)
  next
    case (Some p)
    with Cons.prems show ?thesis by (auto simp: closeConn_detached)
  qed
qed

lemma Close_attached:
  assumes "cacheConns (pool w) = Some cc" and "idleConns (pool w) = Some ic"
  shows "fst (Close w) = (if \<exists>p. Some p \<in> set (buf cc) then Parks else Returns None)"
    and "pool (snd (Close w)) = (pool w)\<lparr>cacheConns := None, idleConns := None\<rparr>"
proof -
  let ?w1 = "w\<lparr>pool := (pool w)\<lparr>cacheConns := None, idleConns := None\<rparr>\<rparr>"
  have eq: "Close w = seq (drain (buf cc) ?w1) (\<lambda>_ w2. (Returns None, w2))"
    using assms by (simp add: Close_def)
  have d: "pool (snd (drain (buf cc) ?w1)) = pool ?w1"
    "fst (drain (buf cc) ?w1) = (if \<exists>p. Some p \<in> set (buf cc) then Parks else Returns ())"
    using drain_detached [of ?w1 "buf cc"] by simp_all
  obtain r w2 where dr: "drain (buf cc) ?w1 = (r, w2)" by (cases "drain (buf cc) ?w1")
  with d have r: "r = (if \<exists>p. Some p \<in> set (buf cc) then Parks else Returns ())"
    and p2: "pool w2 = pool ?w1" by simp_all
  show "fst (Close w) = (if \<exists>p. Some p \<in> set (buf cc) then Parks else Returns None)"
    using eq dr r by (auto simp: seq_def)
  show "pool (snd (Close w)) = (pool w)\<lparr>cacheConns := None, idleConns := None\<rparr>"
    using eq dr r p2 by (auto simp: seq_def)
qed

lemma Close_detaches:
  "cacheConns (pool (snd (Close w))) = None \<and> idleConns (pool (snd (Close w))) = None"
proof (cases "\<exists>cc ic. cacheConns (pool w) = Some cc \<and> idleConns (pool w) = Some ic")
  case True
  then obtain cc ic where "cacheConns (pool w) = Some cc" "idleConns (pool w) = Some ic" by blast
  from Close_attached(2) [OF this] show ?thesis by simp
next
  case False
  then show ?thesis by (auto simp: Close_def Let_def split: option.splits)
qed

lemma Close_again:
  assumes "cacheConns (pool w) = None" and "idleConns (pool w) = None"
  shows "Close w = (Returns None, w)"
proof -
  from assms have "(pool w)\<lparr>cacheConns := None, idleConns := None\<rparr> = pool w" by simp
  then have "w\<lparr>pool := (pool w)\<lparr>cacheConns := None, idleConns := None\<rparr>\<rparr> = w" by simp
  with assms show ?thesis by (simp add: Close_def)
qed


text \<open>
  C2. \<open>Close\<close> on the pool that \<open>Open\<close> returns for one connection: \<open>cacheConns\<close> holds
  session 1 when \<open>Close\<close> starts. \<open>Close\<close> detaches both channels, closes session 1
  and then parks in \<open>closeConn\<close>, on the send to the channel that \<open>getIdleConns\<close>
  reads back from the pool and that is nil by now. It does not return.
\<close>

theorem Close_parks:
  "fst (Open ''127.0.0.1:3306'' ''root'' ''secret'' ''test'' 1 (boot accepting)) = Returns None \<and>
   cacheConns (pool (opened 1)) = Some \<lparr>buf = [Some 1], cap = 1\<rparr> \<and>
   idleConns (pool (opened 1)) = Some \<lparr>buf = [], cap = 1\<rparr> \<and>
   fst (Close (opened 1)) = Parks \<and>
   calls (snd (Close (opened 1))) = calls (opened 1) @ [(1, CClose)] \<and>
   cacheConns (pool (snd (Close (opened 1)))) = None \<and>
   idleConns (pool (snd (Close (opened 1)))) = None"
  unfolding opened_def by code_simp


text \<open>
  C3. \<open>Close\<close> on a handle that wraps no session is a no-op. On a handle that wraps a
  session no call of \<open>Close\<close> is a no-op, whatever state it finds and whether or not the
  handle was closed before: the call either puts the session into \<open>cacheConns\<close> (no
  protocol error on the session, \<open>cacheConns\<close> attached and not full) or calls \<open>Close\<close>
  on the session. With no protocol error on the session and room for two more entries
  in \<open>cacheConns\<close>, two calls of \<open>Close\<close> on the handle put the session into \<open>cacheConns\<close>
  twice.
\<close>

theorem BackendConn_Close_repeats:
  "(Conn h = None \<longrightarrow> BackendConn_Close h w = (Returns (), w)) \<and>
   (Conn h = Some p \<longrightarrow>
      (\<not> pkgErr (heap w p) \<and>
       (\<exists>c. cacheConns (pool w) = Some c \<and> length (buf c) < cap c \<and>
          BackendConn_Close h w =
            (Returns (), w\<lparr>pool := (pool w)\<lparr>cacheConns := Some (c\<lparr>buf := buf c @ [Some p]\<rparr>)\<rparr>\<rparr>))) \<or>
      calls (snd (BackendConn_Close h w)) = calls w @ [(p, CClose)]) \<and>
   (Conn h = Some p \<and> \<not> pkgErr (heap w p) \<and> cacheConns (pool w) = Some cc \<and>
    length (buf cc) + 2 \<le> cap cc \<longrightarrow>
      BackendConn_Close h w =
        (Returns (), w\<lparr>pool := (pool w)\<lparr>cacheConns := Some (cc\<lparr>buf := buf cc @ [Some p]\<rparr>)\<rparr>\<rparr>) \<and>
      BackendConn_Close h (snd (BackendConn_Close h w)) =
        (Returns (), w\<lparr>pool := (pool w)\<lparr>cacheConns := Some (cc\<lparr>buf := buf cc @ [Some p, Some p]\<rparr>)\<rparr>\<rparr>))"
proof (intro conjI impI)
  assume "Conn h = None"
  then show "BackendConn_Close h w = (Returns (), w)" by (simp add: BackendConn_Close_def)
next
  assume h: "Conn h = Some p"
  have cl: "calls (snd (closeConn (Some p) w)) = calls w @ [(p, CClose)]"
    by (simp add: closeConn_def Let_def Conn_Close_def set_conn_def record_call_def
        split: result.splits)
  have cl': "calls (snd (seq (closeConn (Some p) w) (\<lambda>_ w1. (Returns (), w1)))) = calls w @ [(p, CClose)]"
    using cl by (cases "closeConn (Some p) w") (auto simp: seq_def split: result.splits)
  show "(\<not> pkgErr (heap w p) \<and>
       (\<exists>c. cacheConns (pool w) = Some c \<and> length (buf c) < cap c \<and>
          BackendConn_Close h w =
            (Returns (), w\<lparr>pool := (pool w)\<lparr>cacheConns := Some (c\<lparr>buf := buf c @ [Some p]\<rparr>)\<rparr>\<rparr>))) \<or>
      calls (snd (BackendConn_Close h w)) = calls w @ [(p, CClose)]"
  proof (cases "pkgErr (heap w p)")
    case True
    with h cl' show ?thesis by (simp add: BackendConn_Close_def)
  next
    case False
    show ?thesis
    proof (cases "cacheConns (pool w)")
      case None
      with h False show ?thesis
        by (simp add: BackendConn_Close_def PushConn_def getCacheConns_def Conn_Close_def
            set_conn_def record_call_def)
    next
      case (Some c)
      show ?thesis
      proof (cases "length (buf c) < cap c")
        case True
        with h False Some show ?thesis
          by (simp add: BackendConn_Close_def PushConn_def getCacheConns_def)
      next
        case full: False
        with h False Some cl' show ?thesis
          by (simp add: BackendConn_Close_def PushConn_def getCacheConns_def)
      qed
    qed
  qed
next
  assume "Conn h = Some p \<and> \<not> pkgErr (heap w p) \<and> cacheConns (pool w) = Some cc \<and>
    length (buf cc) + 2 \<le> cap cc"
  then show "BackendConn_Close h w =
        (Returns (), w\<lparr>pool := (pool w)\<lparr>cacheConns := Some (cc\<lparr>buf := buf cc @ [Some p]\<rparr>)\<rparr>\<rparr>)"
    and "BackendConn_Close h (snd (BackendConn_Close h w)) =
        (Returns (), w\<lparr>pool := (pool w)\<lparr>cacheConns := Some (cc\<lparr>buf := buf cc @ [Some p, Some p]\<rparr>)\<rparr>\<rparr>)"
    by (simp_all add: BackendConn_Close_def PushConn_def getCacheConns_def)
qed

theorem BackendConn_Close_repeats_witness:
  "(Conn \<lparr>Conn = None\<rparr> = None \<and>
    BackendConn_Close \<lparr>Conn = None\<rparr> (held 20) = (Returns (), held 20)) \<and>
   (Conn handle1 = Some 1 \<and> pkgErr (heap tainted 1) \<and>
    calls (snd (BackendConn_Close handle1 tainted)) = calls tainted @ [(1, CClose)]) \<and>
   (Conn handle1 = Some 1 \<and> \<not> pkgErr (heap (held 20) 1) \<and>
    cacheConns (pool (held 20)) = Some \<lparr>buf = [Some 2, Some 3, Some 4, Some 5], cap = 20\<rparr> \<and>
    length (buf \<lparr>buf = [Some 2, Some 3, Some 4, Some 5], cap = 20\<rparr>) + 2
      \<le> cap \<lparr>buf = [Some 2, Some 3, Some 4, Some 5], cap = 20\<rparr> \<and>
    BackendConn_Close handle1 (held 20) =
      (Returns (),
       (held 20)\<lparr>pool := (pool (held 20))
          \<lparr>cacheConns := Some \<lparr>buf = [Some 2, Some 3, Some 4, Some 5, Some 1], cap = 20\<rparr>\<rparr>\<rparr>) \<and>
    BackendConn_Close handle1 (snd (BackendConn_Close handle1 (held 20))) =
      (Returns (),
       (held 20)\<lparr>pool := (pool (held 20))
          \<lparr>cacheConns := Some \<lparr>buf = [Some 2, Some 3, Some 4, Some 5, Some 1, Some 1], cap = 20\<rparr>\<rparr>\<rparr>))"
proof -
  have h1: "Conn handle1 = Some 1" by (simp add: handle1_def)
  have h2: "\<not> pkgErr (heap (held 20) 1)"
    unfolding held_def opened_def by code_simp
  have h3: "cacheConns (pool (held 20)) = Some \<lparr>buf = [Some 2, Some 3, Some 4, Some 5], cap = 20\<rparr>"
    unfolding held_def opened_def by code_simp
  have h4: "length (buf \<lparr>buf = [Some 2, Some 3, Some 4, Some 5], cap = 20\<rparr>) + 2
      \<le> cap \<lparr>buf = [Some 2, Some 3, Some 4, Some 5], cap = 20\<rparr>"
    by simp
  have h5: "pkgErr (heap tainted 1)" by (simp add: tainted_def set_conn_def)
  from BackendConn_Close_repeats [of "\<lparr>Conn = None\<rparr>" "held 20"]
  have a: "BackendConn_Close \<lparr>Conn = None\<rparr> (held 20) = (Returns (), held 20)" by simp
  from BackendConn_Close_repeats [of handle1 tainted 1, THEN conjunct2, THEN conjunct1] h1 h5
  have c: "calls (snd (BackendConn_Close handle1 tainted)) = calls tainted @ [(1, CClose)]"
    by blast
  from BackendConn_Close_repeats [of handle1 "held 20" 1 "\<lparr>buf = [Some 2, Some 3, Some 4, Some 5], cap = 20\<rparr>",
      THEN conjunct2, THEN conjunct2]
    h1 h2 h3 h4
  have b: "BackendConn_Close handle1 (held 20) =
      (Returns (),
       (held 20)\<lparr>pool := (pool (held 20))
          \<lparr>cacheConns := Some \<lparr>buf = [Some 2, Some 3, Some 4, Some 5, Some 1], cap = 20\<rparr>\<rparr>\<rparr>) \<and>
    BackendConn_Close handle1 (snd (BackendConn_Close handle1 (held 20))) =
      (Returns (),
       (held 20)\<lparr>pool := (pool (held 20))
          \<lparr>cacheConns := Some \<lparr>buf = [Some 2, Some 3, Some 4, Some 5, Some 1, Some 1], cap = 20\<rparr>\<rparr>\<rparr>)"
    by (simp cong: conj_cong)
  have z: "Conn \<lparr>Conn = None\<rparr> = None" by simp
  from z a h1 h5 c h2 h3 h4 b [THEN conjunct1] b [THEN conjunct2] show ?thesis
    by - (intro conjI; assumption)
qed

theorem BackendConn_Close_twice_counterexample:
  "fst (GetConn (opened 3)) = Returns (Inr handle1) \<and>
   BackendConn_Close handle1 (held 3) = (Returns (), closed_once) \<and>
   cacheConns (pool closed_once) = Some \<lparr>buf = [Some 2, Some 3, Some 1], cap = 3\<rparr> \<and>
   idleConns (pool closed_once) = Some \<lparr>buf = [], cap = 3\<rparr> \<and>
   connected (heap closed_once 1) \<and>
   BackendConn_Close handle1 closed_once = (Returns (), closed_twice) \<and>
   cacheConns (pool closed_twice) = Some \<lparr>buf = [Some 2, Some 3, Some 1], cap = 3\<rparr> \<and>
   idleConns (pool closed_twice) = Some \<lparr>buf = [Some 1], cap = 3\<rparr> \<and>
   \<not> connected (heap closed_twice 1)"
proof -
  have a: "fst (BackendConn_Close handle1 (held 3)) = Returns ()"
    unfolding held_def opened_def handle1_def by code_simp
  have b: "fst (BackendConn_Close handle1 closed_once) = Returns ()"
    unfolding closed_once_def held_def opened_def handle1_def by code_simp
  have c: "fst (GetConn (opened 3)) = Returns (Inr handle1)"
    unfolding opened_def handle1_def by code_simp
  have d: "cacheConns (pool closed_once) = Some \<lparr>buf = [Some 2, Some 3, Some 1], cap = 3\<rparr>"
    "idleConns (pool closed_once) = Some \<lparr>buf = [], cap = 3\<rparr>"
    "connected (heap closed_once 1)"
    unfolding closed_once_def held_def opened_def handle1_def by code_simp+
  have e: "cacheConns (pool closed_twice) = Some \<lparr>buf = [Some 2, Some 3, Some 1], cap = 3\<rparr>"
    "idleConns (pool closed_twice) = Some \<lparr>buf = [Some 1], cap = 3\<rparr>"
    "\<not> connected (heap closed_twice 1)"
    unfolding closed_twice_def closed_once_def held_def opened_def handle1_def by code_simp+
  from a b c d e show ?thesis
    by (simp add: closed_once_def closed_twice_def prod_eq_iff)
qed

lemma tryReuse_calls:
  assumes "tryReuse (Some p) w = (r, w')"
  shows "\<exists>l. calls w' = calls w @ (p, CIsInTransaction) # l"
proof -
  have c1: "\<And>w e w'. Conn_Rollback p w = (e, w') \<Longrightarrow> \<exists>l. calls w' = calls w @ l"
    by (auto simp: Conn_Rollback_def round_trip_def record_call_def set_conn_def split: bool.splits)
  have c2: "\<And>w q e w'. Conn_exec p q w = (e, w') \<Longrightarrow> \<exists>l. calls w' = calls w @ l"
    by (auto simp: Conn_exec_def round_trip_def record_call_def set_conn_def split: bool.splits if_splits)
  have c3: "\<And>w n e w'. Conn_SetCharset p n w = (e, w') \<Longrightarrow> \<exists>l. calls w' = calls w @ l"
    by (auto simp: Conn_SetCharset_def round_trip_def record_call_def set_conn_def split: bool.splits)
  obtain t w1 where a: "Conn_IsInTransaction p w = (t, w1)" by (cases "Conn_IsInTransaction p w")
  obtain e1 w2 where b: "(if t then Conn_Rollback p w1 else (None, w1)) = (e1, w2)"
    by (cases "if t then Conn_Rollback p w1 else (None, w1)")
  obtain c w3 where c: "Conn_IsAutoCommit p w2 = (c, w3)" by (cases "Conn_IsAutoCommit p w2")
  obtain e2 w4 where d: "(if \<not> c then Conn_exec p ''set autocommit = 1'' w3 else (None, w3)) = (e2, w4)"
    by (cases "if \<not> c then Conn_exec p ''set autocommit = 1'' w3 else (None, w3)")
  obtain cs w5 where e: "Conn_GetCharset p w4 = (cs, w5)" by (cases "Conn_GetCharset p w4")
  obtain e3 w6 where f: "(if cs \<noteq> DEFAULT_CHARSET then Conn_SetCharset p DEFAULT_CHARSET w5 else (None, w5)) = (e3, w6)"
    by (cases "if cs \<noteq> DEFAULT_CHARSET then Conn_SetCharset p DEFAULT_CHARSET w5 else (None, w5)")
  have l1: "calls w1 = calls w @ [(p, CIsInTransaction)]"
    using a by (auto simp: Conn_IsInTransaction_def record_call_def)
  obtain k2 where l2: "calls w2 = calls w1 @ k2"
    using b by (cases t) (auto dest: c1)
  have l3: "calls w3 = calls w2 @ [(p, CIsAutoCommit)]"
    using c by (auto simp: Conn_IsAutoCommit_def record_call_def)
  obtain k4 where l4: "calls w4 = calls w3 @ k4"
    using d by (cases c) (auto dest: c2)
  have l5: "calls w5 = calls w4 @ [(p, CGetCharset)]"
    using e by (auto simp: Conn_GetCharset_def record_call_def)
  obtain k6 where l6: "calls w6 = calls w5 @ k6"
    using f by (cases "cs \<noteq> DEFAULT_CHARSET") (auto dest: c3)
  have "tryReuse (Some p) w =
          (case e1 of Some x \<Rightarrow> (Returns (Some x), w2)
           | None \<Rightarrow> (case e2 of Some x \<Rightarrow> (Returns (Some x), w4)
                      | None \<Rightarrow> (Returns e3, w6)))"
    unfolding tryReuse_def by (simp add: a b c d e f split: option.splits)
  with assms have "w' = w2 \<or> w' = w4 \<or> w' = w6" by (auto split: option.splits)
  then show ?thesis using l1 l2 l3 l4 l5 l6 by auto
qed


lemma seq_const_eq:
  "seq m (\<lambda>_ w2. (Returns e, w2)) = (Returns e', w') \<Longrightarrow> e = e'"
  "(Returns e', w') = seq m (\<lambda>_ w2. (Returns e, w2)) \<Longrightarrow> e = e'"
  by (cases m; auto simp: seq_def split: result.splits)+

lemma PopConn_from_idle:
  assumes "cacheConns (pool w) = Some cc" and "idleConns (pool w) = Some ic" and "buf cc = []"
    and "PopConn w = (Returns (Inr co), w')"
  shows "\<exists>p rest. buf ic = Some p # rest \<and> co = Some p \<and>
           calls w' = calls w @ [(p, CConnect (addr (pool w)) (user (pool w)) (password (pool w)) (db (pool w)))]"
proof (cases "buf ic")
  case Nil
  from PopConn_empty [OF assms(1,2,3) Nil] assms(4) show ?thesis by simp
next
  case (Cons x rest)
  show ?thesis
  proof (cases x)
    case None
    with assms Cons show ?thesis by (simp add: PopConn_def getConns_def)
  next
    case (Some p)
    let ?w1 = "w\<lparr>pool := (pool w)\<lparr>idleConns := Some (ic\<lparr>buf := rest\<rparr>)\<rparr>\<rparr>"
    obtain e w2 where
      cn: "Conn_Connect p (addr (pool w)) (user (pool w)) (password (pool w)) (db (pool w)) ?w1 = (e, w2)"
      by (cases "Conn_Connect p (addr (pool w)) (user (pool w)) (password (pool w)) (db (pool w)) ?w1")
    note f = Conn_Connect_facts [OF cn]
    from PopConn_idle [OF assms(1,2,3) Cons [unfolded Some]] cn
    have pop: "PopConn w = (case e of
                 Some x \<Rightarrow> seq (closeConn (Some p) w2) (\<lambda>_ w3. (Returns (Inl x), w3))
               | None \<Rightarrow> (Returns (Inr (Some p)), w2))"
      by (simp split: option.splits)
    show ?thesis
    proof (cases e)
      case None
      with pop assms(4) have "co = Some p" "w' = w2" by simp_all
      with Cons Some f(5) show ?thesis by simp
    next
      case (Some err)
      with pop assms(4) show ?thesis by (auto dest: seq_const_eq)
    qed
  qed
qed

lemma PopConn_from_cache:
  assumes "cacheConns (pool w) = Some cc" and "idleConns (pool w) = Some ic" and "buf cc = x # rest"
    and "PopConn w = (Returns (Inr co), w')"
  shows "co = x \<and>
         tryReuse co (w\<lparr>pool := (pool w)\<lparr>cacheConns := Some (cc\<lparr>buf := rest\<rparr>)\<rparr>\<rparr>) = (Returns None, w') \<and>
         (\<exists>p l. co = Some p \<and> calls w' = calls w @ (p, CIsInTransaction) # l)"
proof (cases x)
  case None
  with assms show ?thesis by (simp add: PopConn_def getConns_def)
next
  case (Some p)
  let ?w1 = "w\<lparr>pool := (pool w)\<lparr>cacheConns := Some (cc\<lparr>buf := rest\<rparr>)\<rparr>\<rparr>"
  obtain r0 w2 where tr0: "tryReuse (Some p) ?w1 = (r0, w2)" by (cases "tryReuse (Some p) ?w1")
  from pool_tryReuse [OF tr0] obtain e where r0: "r0 = Returns e" by blast
  from tryReuse_calls [OF tr0] obtain l where l: "calls w2 = calls w @ (p, CIsInTransaction) # l"
    by auto
  from PopConn_cache [OF assms(1,2) assms(3) [unfolded Some]] tr0 r0
  have pop: "PopConn w = (case e of
               Some x \<Rightarrow> seq (closeConn (Some p) w2) (\<lambda>_ w3. (Returns (Inl x), w3))
             | None \<Rightarrow> (Returns (Inr (Some p)), w2))"
    by simp
  show ?thesis
  proof (cases e)
    case None
    with pop assms(4) have "co = Some p" "w' = w2" by simp_all
    with Some tr0 r0 None l show ?thesis by simp
  next
    case (Some err)
    with pop assms(4) show ?thesis by (auto dest: seq_const_eq)
  qed
qed

text \<open>
  C7. When \<open>PopConn\<close> hands out a session and \<open>cacheConns\<close> was empty, the session is
  the Conn object at the head of \<open>idleConns\<close> and the only call made on it is
  \<open>Connect\<close>: \<open>tryReuse\<close> is not entered. When \<open>cacheConns\<close> was not empty, the session
  is its head, \<open>tryReuse\<close> has run on it (its first call is \<open>IsInTransaction\<close>) and has
  returned no error.
\<close>

theorem PopConn_sanitation:
  "(cacheConns (pool w) = Some cc \<and> idleConns (pool w) = Some ic \<and> buf cc = [] \<and>
    PopConn w = (Returns (Inr co), w') \<longrightarrow>
      (\<exists>p rest. buf ic = Some p # rest \<and> co = Some p \<and>
         calls w' = calls w @ [(p, CConnect (addr (pool w)) (user (pool w)) (password (pool w)) (db (pool w)))])) \<and>
   (cacheConns (pool w) = Some cc \<and> idleConns (pool w) = Some ic \<and> buf cc = x # rest \<and>
    PopConn w = (Returns (Inr co), w') \<longrightarrow>
      co = x \<and>
      tryReuse co (w\<lparr>pool := (pool w)\<lparr>cacheConns := Some (cc\<lparr>buf := rest\<rparr>)\<rparr>\<rparr>) = (Returns None, w') \<and>
      (\<exists>p l. co = Some p \<and> calls w' = calls w @ (p, CIsInTransaction) # l))"
  using PopConn_from_idle [of w cc ic co w'] PopConn_from_cache [of w cc ic x rest co w']
  by blast

theorem PopConn_sanitation_witness:
  "(cacheConns (pool discarded) = Some \<lparr>buf = [], cap = 1\<rparr> \<and>
    idleConns (pool discarded) = Some \<lparr>buf = [Some 1], cap = 1\<rparr> \<and>
    buf \<lparr>buf = [], cap = 1\<rparr> = [] \<and>
    PopConn discarded = (Returns (Inr (Some 1)), snd (PopConn discarded)) \<and>
    (\<exists>p rest. buf \<lparr>buf = [Some 1], cap = 1\<rparr> = Some p # rest \<and> Some 1 = Some p \<and>
       calls (snd (PopConn discarded)) =
         calls discarded @
           [(p, CConnect (addr (pool discarded)) (user (pool discarded)) (password (pool discarded))
                  (db (pool discarded)))])) \<and>
   (cacheConns (pool (opened 1)) = Some \<lparr>buf = [Some 1], cap = 1\<rparr> \<and>
    idleConns (pool (opened 1)) = Some \<lparr>buf = [], cap = 1\<rparr> \<and>
    buf \<lparr>buf = [Some 1], cap = 1\<rparr> = Some 1 # [] \<and>
    PopConn (opened 1) = (Returns (Inr (Some 1)), snd (PopConn (opened 1))) \<and>
    Some 1 = Some 1 \<and>
    tryReuse (Some 1)
      ((opened 1)\<lparr>pool := (pool (opened 1))\<lparr>cacheConns := Some (\<lparr>buf = [Some 1], cap = 1\<rparr>\<lparr>buf := []\<rparr>)\<rparr>\<rparr>) =
      (Returns None, snd (PopConn (opened 1))) \<and>
    (\<exists>p l. Some 1 = Some p \<and>
       calls (snd (PopConn (opened 1))) = calls (opened 1) @ (p, CIsInTransaction) # l))"
proof -
  have a1: "cacheConns (pool discarded) = Some \<lparr>buf = [], cap = 1\<rparr>"
    and a2: "idleConns (pool discarded) = Some \<lparr>buf = [Some 1], cap = 1\<rparr>"
    unfolding discarded_def tainted_def held_def opened_def handle1_def by code_simp+
  have a3: "buf \<lparr>buf = [], cap = 1\<rparr> = []" by simp
  have "fst (PopConn discarded) = Returns (Inr (Some 1))"
    unfolding discarded_def tainted_def held_def opened_def handle1_def by code_simp
  then have a4: "PopConn discarded = (Returns (Inr (Some 1)), snd (PopConn discarded))"
    by (simp add: prod_eq_iff)
  have b1: "cacheConns (pool (opened 1)) = Some \<lparr>buf = [Some 1], cap = 1\<rparr>"
    and b2: "idleConns (pool (opened 1)) = Some \<lparr>buf = [], cap = 1\<rparr>"
    unfolding opened_def by code_simp+
  have b3: "buf \<lparr>buf = [Some 1], cap = 1\<rparr> = Some 1 # []" by simp
  have "fst (PopConn (opened 1)) = Returns (Inr (Some 1))"
    unfolding opened_def by code_simp
  then have b4: "PopConn (opened 1) = (Returns (Inr (Some 1)), snd (PopConn (opened 1)))"
    by (simp add: prod_eq_iff)
  note t1 = PopConn_sanitation [of discarded "\<lparr>buf = [], cap = 1\<rparr>" "\<lparr>buf = [Some 1], cap = 1\<rparr>"
      "Some 1" "snd (PopConn discarded)", THEN conjunct1, THEN mp, OF conjI [OF a1 conjI [OF a2 conjI [OF a3 a4]]]]
  note t2 = PopConn_sanitation [of "opened 1" "\<lparr>buf = [Some 1], cap = 1\<rparr>" "\<lparr>buf = [], cap = 1\<rparr>"
      "Some 1" "snd (PopConn (opened 1))" "Some 1" "[]", THEN conjunct2, THEN mp,
      OF conjI [OF b1 conjI [OF b2 conjI [OF b3 b4]]]]
  from a1 a2 a3 a4 t1 b1 b2 b3 b4 t2 show ?thesis
    by blast
qed




end
